theory Spec2Isabelle
  imports Complex_Main "HOL-Library.Sublist"
begin

section \<open>Data model\<close>

text \<open>
  The conversation history is an array of messages (\<open>Anthropic.Messages.MessageParam\<close>):
  a role and a content that is either a bare string or an array of content blocks.
  The structured values of a tool invocation (\<open>input\<close>) and of a tool result are carried
  in their serialised form, which is all that \<open>calculateTokens\<close> reads of them.
\<close>

datatype role = User | Assistant

datatype block =
    TextBlock string
  | ImageBlock
  | ToolUseBlock string string
  | ToolResultBlock string

datatype content = StringContent string | BlockContent "block list"

record message =
  role :: role
  content :: content

text \<open>
  \<open>types.ts\<close>: a \<open>ContextUpdate\<close> is the tuple
  \<open>[timestamp, updateType, content, metadata?]\<close>; \<open>content\<close> is \<open>string | null\<close>.
  The metadata written by this module is \<open>{ originalPath }\<close>, with
  \<open>replacedMention: true\<close> added for a replaced mention.
\<close>

datatype updateType = replace_content | add_truncation_notice | other

record metadata =
  originalPath :: "string option"
  replacedMention :: bool

type_synonym ContextUpdate = "int \<times> updateType \<times> string option \<times> metadata option"

text \<open>
  A JavaScript object with integer keys is an association list; the engine enumerates
  integer keys in ascending order, so \<open>obj_set\<close> keeps the list sorted by key.
  \<open>obj_get\<close> is property lookup (\<open>None\<close> for \<open>undefined\<close>), \<open>obj_keys\<close> is the
  enumeration of \<open>for (const k in o)\<close>.
\<close>

type_synonym 'v obj = "(nat \<times> 'v) list"

definition obj_get :: "'v obj \<Rightarrow> nat \<Rightarrow> 'v option" where
  "obj_get ob k = map_of ob k"

definition obj_keys :: "'v obj \<Rightarrow> nat list" where
  "obj_keys ob = map fst ob"

fun obj_set :: "nat \<Rightarrow> 'v \<Rightarrow> 'v obj \<Rightarrow> 'v obj" where
  "obj_set k v [] = [(k, v)]"
| "obj_set k v ((k', v') # kvs) =
     (if k = k' then (k, v) # kvs
      else if k < k' then (k, v) # (k', v') # kvs
      else (k', v') # obj_set k v kvs)"

record messageUpdates =
  editType :: role
  blocks :: "ContextUpdate list obj"

type_synonym PersistedContextHistory = "messageUpdates obj"

text \<open>
  The two canonical notice strings come from \<open>formatResponse\<close> in
  \<open>core/prompts/responses\<close>; they are parameters of the model.
\<close>

record formatResponse =
  contextTruncationNotice :: string
  duplicateFileReadNotice :: string

section \<open>The edit applier: \<open>applyModificationsToHistory\<close>\<close>

text \<open>
  The body of the inner loop after the latest update of a block has been selected:
  \<open>replace_content\<close> overwrites the text of a text block when the payload is a string;
  \<open>add_truncation_notice\<close> prepends the notice and a newline to a text block unless the
  text already starts with the notice; every other combination leaves the block alone.
\<close>

definition applyLatestUpdate :: "formatResponse \<Rightarrow> ContextUpdate \<Rightarrow> block \<Rightarrow> block" where
  "applyLatestUpdate fr latestUpdate block =
     (case latestUpdate of (timestamp, updateType, newContent, meta) \<Rightarrow>
        (case updateType of
           replace_content \<Rightarrow>
             (case block of
                TextBlock t \<Rightarrow> (case newContent of Some s \<Rightarrow> TextBlock s | None \<Rightarrow> block)
              | _ \<Rightarrow> block)
         | add_truncation_notice \<Rightarrow>
             (case block of
                TextBlock t \<Rightarrow>
                  (let notice = contextTruncationNotice fr
                   in if prefix notice t then block
                      else TextBlock (notice @ [CHR 0x0A] @ t))
              | _ \<Rightarrow> block)
         | other \<Rightarrow> block))"

text \<open>One iteration of the loop over \<open>messageUpdates.blocks\<close>.\<close>

definition applyBlockUpdates ::
  "formatResponse \<Rightarrow> ContextUpdate list obj \<Rightarrow> nat \<Rightarrow> block list \<Rightarrow> block list" where
  "applyBlockUpdates fr blks blockIndex cont =
     (if blockIndex \<ge> length cont then cont
      else case obj_get blks blockIndex of
             None \<Rightarrow> cont
           | Some blockUpdates \<Rightarrow>
               if blockUpdates = [] then cont
               else cont[blockIndex := applyLatestUpdate fr (last blockUpdates) (cont ! blockIndex)])"

text \<open>One iteration of the loop over the message indices of the modifications.\<close>

definition applyMessageUpdates ::
  "formatResponse \<Rightarrow> PersistedContextHistory \<Rightarrow> nat \<Rightarrow> message list \<Rightarrow> message list" where
  "applyMessageUpdates fr modifications messageIndex updatedHistory =
     (if messageIndex \<ge> length updatedHistory then updatedHistory
      else case obj_get modifications messageIndex of
             None \<Rightarrow> updatedHistory
           | Some messageUpdates \<Rightarrow>
               (case content (updatedHistory ! messageIndex) of
                  StringContent _ \<Rightarrow> updatedHistory
                | BlockContent cont \<Rightarrow>
                    updatedHistory[messageIndex := (updatedHistory ! messageIndex)
                      \<lparr>content := BlockContent
                         (fold (applyBlockUpdates fr (blocks messageUpdates))
                               (obj_keys (blocks messageUpdates)) cont)\<rparr>]))"

definition applyModificationsToHistory ::
  "formatResponse \<Rightarrow> message list \<Rightarrow> PersistedContextHistory \<Rightarrow> message list" where
  "applyModificationsToHistory fr history modifications =
     fold (applyMessageUpdates fr modifications) (obj_keys modifications) history"

text \<open>
  \<open>applyContextHistoryUpdates\<close> runs the same two loops over the manager's own
  \<open>contextHistoryUpdates\<close> (it differs from \<open>applyModificationsToHistory\<close> in its log
  messages only).
\<close>

definition applyContextHistoryUpdates ::
  "formatResponse \<Rightarrow> PersistedContextHistory \<Rightarrow> message list \<Rightarrow> message list" where
  "applyContextHistoryUpdates fr contextHistoryUpdates rawHistory =
     fold (applyMessageUpdates fr contextHistoryUpdates) (obj_keys contextHistoryUpdates) rawHistory"

section \<open>The budget oracle: \<open>getContextWindowInfo\<close>\<close>

text \<open>
  \<open>context-window-utils.ts\<close>. JavaScript numbers are modelled as exact rationals.
  \<open>modelInfo?.contextWindow || DEFAULT_CONTEXT_WINDOW\<close> takes the default for a missing
  descriptor, a missing field and for zero. The result is the pair
  \<open>(contextWindow, maxAllowedSize)\<close>.
\<close>

record ModelInfo =
  contextWindow :: "rat option"

definition getContextWindowInfo :: "ModelInfo option \<Rightarrow> rat \<times> rat" where
  "getContextWindowInfo modelInfo =
     (let DEFAULT_CONTEXT_WINDOW = 128000;
          DEFAULT_BUFFER = 30000;
          cw = (case modelInfo of
                  None \<Rightarrow> DEFAULT_CONTEXT_WINDOW
                | Some mi \<Rightarrow>
                    (case contextWindow mi of
                       None \<Rightarrow> DEFAULT_CONTEXT_WINDOW
                     | Some w \<Rightarrow> if w = 0 then DEFAULT_CONTEXT_WINDOW else w));
          maxAllowedSize =
            (if cw = 64000 then cw - 27000
             else if cw = 128000 then cw - DEFAULT_BUFFER
             else if cw = 200000 then cw - 40000
             else (let percentageBasedBuffer = cw * (2 / 10);
                       fixedBuffer = 40000;
                       m = cw - max percentageBasedBuffer fixedBuffer
                   in max (max m (cw / 2)) 1000))
      in (cw, maxAllowedSize))"

section \<open>The token estimator: \<open>calculateTokens\<close>\<close>

fun blockTokens :: "(string \<Rightarrow> nat) \<Rightarrow> block \<Rightarrow> nat" where
  "blockTokens tokenizer (TextBlock t) = tokenizer t"
| "blockTokens tokenizer ImageBlock = 1500"
| "blockTokens tokenizer (ToolUseBlock name input) = tokenizer input + tokenizer name + 20"
| "blockTokens tokenizer (ToolResultBlock c) = tokenizer c + 20"

definition calculateTokens :: "(string \<Rightarrow> nat) \<Rightarrow> message list \<Rightarrow> nat" where
  "calculateTokens tokenizer history =
     fold (\<lambda>msg totalTokens.
             case content msg of
               BlockContent cont \<Rightarrow> fold (\<lambda>b t. t + blockTokens tokenizer b) cont totalTokens
             | StringContent s \<Rightarrow> totalTokens + tokenizer s)
          history 0"

section \<open>Detection of duplicate file reads: \<open>findDuplicateFileReads\<close>\<close>

text \<open>
  The two regular expressions of the source, as string functions.
  \<open>/^\[read_file for '([^']+)'\] Result:$/\<close> has no flags, so it spans the whole text:
  the fixed prefix, a non-empty path without a quote, the fixed suffix.
\<close>

definition matchToolHeader :: "string \<Rightarrow> string option" where
  "matchToolHeader t =
     (let pre = ''[read_file for '' @ [CHR 0x27]
      in if prefix pre t then
           (let r = drop (length pre) t;
                p = takeWhile (\<lambda>c. c \<noteq> CHR 0x27) r;
                r2 = dropWhile (\<lambda>c. c \<noteq> CHR 0x27) r
            in if p \<noteq> [] \<and> r2 = [CHR 0x27] @ ''] Result:'' then Some p else None)
         else None)"

text \<open>The text before and after the first occurrence of a pattern, if there is one.\<close>

fun splitAtFirst :: "string \<Rightarrow> string \<Rightarrow> (string \<times> string) option" where
  "splitAtFirst pat [] = (if pat = [] then Some ([], []) else None)"
| "splitAtFirst pat (c # cs) =
     (if prefix pat (c # cs) then Some ([], drop (length pat) (c # cs))
      else map_option (\<lambda>(b, a). (c # b, a)) (splitAtFirst pat cs))"

definition mentionOpen :: string where
  "mentionOpen = ''<file_content path='' @ [CHR 0x22]"

definition mentionClose :: string where
  "mentionClose = ''</file_content>''"

text \<open>
  One attempt of \<open>/<file_content path="([^"]*)">([\s\S]*?)<\/file_content>/\<close> at the
  start of a text: the path runs to the next double quote, which a closing angle bracket must follow; the
  lazy body runs to the first closing tag. The result is the path, the whole match and
  the text after the match.
\<close>

definition matchMentionAt :: "string \<Rightarrow> (string \<times> string \<times> string) option" where
  "matchMentionAt s =
     (if prefix mentionOpen s then
        (let r = drop (length mentionOpen) s;
             p = takeWhile (\<lambda>c. c \<noteq> CHR 0x22) r;
             r2 = dropWhile (\<lambda>c. c \<noteq> CHR 0x22) r
         in if prefix [CHR 0x22, CHR ''>''] r2 then
              (case splitAtFirst mentionClose (drop 2 r2) of
                 None \<Rightarrow> None
               | Some (body, rest) \<Rightarrow>
                   Some (p, mentionOpen @ p @ [CHR 0x22, CHR ''>''] @ body @ mentionClose, rest))
            else None)
      else None)"

lemma splitAtFirst_length: "splitAtFirst pat s = Some (b, a) \<Longrightarrow> length a \<le> length s"
  by (induction s arbitrary: b) (auto split: if_splits)

lemma matchMentionAt_shorter:
  assumes "matchMentionAt s = Some (p, full, rest)"
  shows "length rest < length s"
proof -
  from assms have pre: "prefix mentionOpen s"
    by (simp add: matchMentionAt_def split: if_splits)
  define r2 where "r2 = dropWhile (\<lambda>c. c \<noteq> CHR 0x22) (drop (length mentionOpen) s)"
  from assms pre obtain body where "splitAtFirst mentionClose (drop 2 r2) = Some (body, rest)"
    by (auto simp: matchMentionAt_def Let_def r2_def split: if_splits option.splits)
  then have "length rest \<le> length (drop 2 r2)"
    by (rule splitAtFirst_length)
  also have "\<dots> \<le> length r2" by simp
  also have "\<dots> \<le> length (drop (length mentionOpen) s)"
    unfolding r2_def by (rule length_dropWhile_le)
  also have "\<dots> < length s"
    using pre by (auto simp: prefix_def mentionOpen_def)
  finally show ?thesis .
qed

text \<open>
  The \<open>while ((match = mentionPattern.exec(block.text)) !== null)\<close> loop of a global
  regular expression: the leftmost match, then the search resumes after it. Each match
  gives the path and the whole matched text.
\<close>

function findMentions :: "string \<Rightarrow> (string \<times> string) list" where
  "findMentions s =
     (if s = [] then []
      else case matchMentionAt s of
             Some (p, full, rest) \<Rightarrow> (p, full) # findMentions rest
           | None \<Rightarrow> findMentions (tl s))"
  by pat_completeness auto
termination
  by (relation "measure length") (auto dest: matchMentionAt_shorter)

record FileReadOccurrence =
  messageIndex :: nat
  blockIndex :: nat
  filePath :: string
  fullMatch :: "string option"

text \<open>
  The \<open>Map\<close> from paths to occurrence arrays keeps its keys in insertion order;
  \<open>map_set\<close> is \<open>Map.prototype.set\<close>.
\<close>

type_synonym fileReadsMap = "(string \<times> FileReadOccurrence list) list"

fun map_set :: "string \<Rightarrow> 'v \<Rightarrow> (string \<times> 'v) list \<Rightarrow> (string \<times> 'v) list" where
  "map_set k v [] = [(k, v)]"
| "map_set k v ((k', v') # kvs) =
     (if k = k' then (k, v) # kvs else (k', v') # map_set k v kvs)"

definition pushOccurrence :: "FileReadOccurrence \<Rightarrow> fileReadsMap \<Rightarrow> fileReadsMap" where
  "pushOccurrence occ fileReads =
     (let occurrences = (case map_of fileReads (filePath occ) of None \<Rightarrow> [] | Some os \<Rightarrow> os)
      in map_set (filePath occ) (occurrences @ [occ]) fileReads)"

text \<open>The body of the loop over the blocks of one user message.\<close>

definition scanBlock :: "nat \<Rightarrow> block list \<Rightarrow> nat \<Rightarrow> fileReadsMap \<Rightarrow> fileReadsMap" where
  "scanBlock msgIndex cont blkIndex fileReads =
     (let fileReads1 =
            (if blkIndex = 0 then
               (case cont ! blkIndex of
                  TextBlock t \<Rightarrow>
                    (case matchToolHeader t of
                       Some path \<Rightarrow>
                         if length cont > blkIndex + 1 then
                           (case cont ! (blkIndex + 1) of
                              TextBlock _ \<Rightarrow>
                                pushOccurrence
                                  \<lparr>messageIndex = msgIndex, blockIndex = blkIndex + 1,
                                   filePath = path, fullMatch = None\<rparr> fileReads
                            | _ \<Rightarrow> fileReads)
                         else fileReads
                     | None \<Rightarrow> fileReads)
                | _ \<Rightarrow> fileReads)
             else fileReads)
      in case cont ! blkIndex of
           TextBlock t \<Rightarrow>
             fold (\<lambda>(path, full).
                     pushOccurrence
                       \<lparr>messageIndex = msgIndex, blockIndex = blkIndex,
                        filePath = path, fullMatch = Some full\<rparr>)
                  (findMentions t) fileReads1
         | _ \<Rightarrow> fileReads1)"

definition scanMessage :: "message list \<Rightarrow> nat \<Rightarrow> fileReadsMap \<Rightarrow> fileReadsMap" where
  "scanMessage history msgIndex fileReads =
     (let msg = history ! msgIndex
      in case content msg of
           StringContent _ \<Rightarrow> fileReads
         | BlockContent cont \<Rightarrow>
             if role msg \<noteq> User then fileReads
             else fold (scanBlock msgIndex cont) [0..<length cont] fileReads)"

definition findDuplicateFileReads :: "message list \<Rightarrow> fileReadsMap" where
  "findDuplicateFileReads history = fold (scanMessage history) [0..<length history] []"

section \<open>The duplicate elider: \<open>applyOptimizations\<close>\<close>

text \<open>
  \<open>String.prototype.replace\<close> with a string pattern replaces the first occurrence and
  expands the dollar patterns of the replacement text: \<open>$$\<close>, \<open>$&\<close> (the match),
  the text before the match (dollar, back quote) and the text after it (dollar, quote).
\<close>

fun expandReplacement :: "string \<Rightarrow> string \<Rightarrow> string \<Rightarrow> string \<Rightarrow> string" where
  "expandReplacement matched pre post [] = []"
| "expandReplacement matched pre post [c] = [c]"
| "expandReplacement matched pre post (c # d # cs) =
     (if c = CHR ''$'' then
        (if d = CHR ''$'' then CHR ''$'' # expandReplacement matched pre post cs
         else if d = CHR ''&'' then matched @ expandReplacement matched pre post cs
         else if d = CHR 0x60 then pre @ expandReplacement matched pre post cs
         else if d = CHR 0x27 then post @ expandReplacement matched pre post cs
         else c # expandReplacement matched pre post (d # cs))
      else c # expandReplacement matched pre post (d # cs))"

definition jsReplace :: "string \<Rightarrow> string \<Rightarrow> string \<Rightarrow> string" where
  "jsReplace s pat rep =
     (case splitAtFirst pat s of
        None \<Rightarrow> s
      | Some (pre, post) \<Rightarrow> pre @ expandReplacement pat pre post rep @ post)"

text \<open>
  \<open>rawHistory[messageIndex]?.content?.[blockIndex]\<close> followed by the type guard: the
  text of the block when it exists and is a text block, the empty string otherwise.
\<close>

definition originalBlockText :: "message list \<Rightarrow> nat \<Rightarrow> nat \<Rightarrow> string" where
  "originalBlockText rawHistory msgIndex blkIndex =
     (if msgIndex < length rawHistory then
        (case content (rawHistory ! msgIndex) of
           BlockContent cont \<Rightarrow>
             (if blkIndex < length cont then
                (case cont ! blkIndex of TextBlock t \<Rightarrow> t | _ \<Rightarrow> [])
              else [])
         | StringContent _ \<Rightarrow> [])
      else [])"

text \<open>
  The update pushed for one occurrence: the notice itself for a tool result; for a
  mention, the current text of the block (the latest \<open>replace_content\<close> payload when
  the latest existing update is one, the raw text otherwise) with the first occurrence
  of the matched mention replaced, or the notice when there is no current text.
\<close>

definition elisionUpdate ::
  "formatResponse \<Rightarrow> int \<Rightarrow> message list \<Rightarrow> string \<Rightarrow> FileReadOccurrence
     \<Rightarrow> ContextUpdate list \<Rightarrow> ContextUpdate" where
  "elisionUpdate fr timestamp rawHistory path occurrence existingUpdates =
     (let replacementNotice = duplicateFileReadNotice fr;
          meta0 = \<lparr>originalPath = Some path, replacedMention = False\<rparr>;
          (newContent, meta) =
            (case fullMatch occurrence of
               None \<Rightarrow> (replacementNotice, meta0)
             | Some full \<Rightarrow>
                 if full = [] then (replacementNotice, meta0)
                 else
                   (let latestText =
                          (if existingUpdates \<noteq> [] then
                             (case last existingUpdates of
                                (_, replace_content, Some s, _) \<Rightarrow> s
                              | _ \<Rightarrow> [])
                           else []);
                        currentText =
                          (if latestText = []
                           then originalBlockText rawHistory (messageIndex occurrence)
                                  (blockIndex occurrence)
                           else latestText)
                    in if currentText \<noteq> [] then
                         (jsReplace currentText full
                            (mentionOpen @ path @ [CHR 0x22, CHR ''>'']
                               @ replacementNotice @ mentionClose),
                          meta0\<lparr>replacedMention := True\<rparr>)
                       else (replacementNotice, meta0)))
      in (timestamp, replace_content, Some newContent, Some meta))"

text \<open>
  The body of the loop over the occurrences of one path but the last. The message
  entry is created with the role of the raw message when it is missing (the step is
  skipped when there is no such message), the block list is created empty when it is
  missing, and the update is pushed.
\<close>

definition elideOccurrence ::
  "formatResponse \<Rightarrow> int \<Rightarrow> message list \<Rightarrow> string \<Rightarrow> FileReadOccurrence
     \<Rightarrow> PersistedContextHistory \<Rightarrow> PersistedContextHistory" where
  "elideOccurrence fr timestamp rawHistory path occurrence updatedModifications =
     (let msgIndex = messageIndex occurrence;
          blkIndex = blockIndex occurrence
      in if obj_get updatedModifications msgIndex = None \<and> \<not> msgIndex < length rawHistory
         then updatedModifications
         else
           (let entry = (case obj_get updatedModifications msgIndex of
                           Some e \<Rightarrow> e
                         | None \<Rightarrow> \<lparr>editType = role (rawHistory ! msgIndex), blocks = []\<rparr>);
                existingUpdates = (case obj_get (blocks entry) blkIndex of
                                     Some us \<Rightarrow> us
                                   | None \<Rightarrow> []);
                update = elisionUpdate fr timestamp rawHistory path occurrence existingUpdates
            in obj_set msgIndex
                 (entry\<lparr>blocks := obj_set blkIndex (existingUpdates @ [update]) (blocks entry)\<rparr>)
                 updatedModifications))"

definition elidePath ::
  "formatResponse \<Rightarrow> int \<Rightarrow> message list \<Rightarrow> string \<times> FileReadOccurrence list
     \<Rightarrow> PersistedContextHistory \<Rightarrow> PersistedContextHistory" where
  "elidePath fr timestamp rawHistory entry updatedModifications =
     (case entry of (path, occurrences) \<Rightarrow>
        if length occurrences \<le> 1 then updatedModifications
        else fold (elideOccurrence fr timestamp rawHistory path) (butlast occurrences)
               updatedModifications)"

text \<open>\<open>timestamp\<close> is the value of \<open>Date.now()\<close> read once at the start of the call.\<close>

definition applyOptimizations ::
  "formatResponse \<Rightarrow> int \<Rightarrow> message list \<Rightarrow> PersistedContextHistory
     \<Rightarrow> PersistedContextHistory" where
  "applyOptimizations fr timestamp rawHistory currentModifications =
     fold (elidePath fr timestamp rawHistory) (findDuplicateFileReads rawHistory)
       currentModifications"

section \<open>The truncator: \<open>applyTruncation\<close>\<close>

text \<open>\<open>Array.prototype.slice(start)\<close>: a negative start counts from the end.\<close>

definition jsSliceFrom :: "int \<Rightarrow> 'a list \<Rightarrow> 'a list" where
  "jsSliceFrom start xs =
     (if start < 0 then drop (nat (max (int (length xs) + start) 0)) xs
      else drop (nat start) xs)"

text \<open>
  JavaScript numbers are IEEE 754 doubles. \<open>roundToDouble\<close> is the value a double
  operation stores for the exact result \<open>x\<close>: the nearest number with 53 significant
  bits (with the fixed spacing of the subnormal range below \<open>2^-1022\<close>), ties going to
  the even significand. \<open>bitLength\<close> is the number of binary digits of a positive
  integer and \<open>binaryExponent a\<close> the exponent \<open>e\<close> with \<open>2^e \<le> a < 2^(e+1)\<close>.
\<close>

function bitLength :: "int \<Rightarrow> int" where
  "bitLength n = (if n \<le> 0 then 0 else 1 + bitLength (n div 2))"
  by pat_completeness auto
termination
  by (relation "measure nat") auto

declare bitLength.simps [simp del]

function pow2 :: "int \<Rightarrow> rat" where
  "pow2 e = (if e = 0 then 1 else if 0 < e then 2 * pow2 (e - 1) else pow2 (e + 1) / 2)"
  by pat_completeness auto
termination
  by (relation "measure (\<lambda>e. nat \<bar>e\<bar>)") auto

declare pow2.simps [simp del]

definition roundTiesToEven :: "rat \<Rightarrow> int" where
  "roundTiesToEven y =
     (let f = \<lfloor>y\<rfloor>; d = y - of_int f
      in if d < 1 / 2 then f
         else if 1 / 2 < d then f + 1
         else if even f then f else f + 1)"

definition binaryExponent :: "rat \<Rightarrow> int" where
  "binaryExponent a =
     (case quotient_of a of (p, q) \<Rightarrow>
        (let e0 = bitLength p - bitLength q
         in if pow2 e0 \<le> a then e0 else e0 - 1))"

definition roundToDouble :: "rat \<Rightarrow> rat" where
  "roundToDouble x =
     (if x = 0 then 0
      else (let a = \<bar>x\<bar>;
                e = max (binaryExponent a) (- 1022);
                ulp = pow2 (e - 52)
            in of_int (roundTiesToEven (x / ulp)) * ulp))"

text \<open>
  The number of messages to remove: \<open>Math.ceil\<close> of the double product of the count and
  the share, made even, and not more than the messages after the first pair. The share
  is the double nearest to \<open>truncationPercentage\<close> (the field holds a double), the count is
  an integer below \<open>2^53\<close> and exact. A product above the largest double is \<open>Infinity\<close> in
  the code, where the clip gives the count, as it does here; a product below the most
  negative double (a share below \<open>-2^1023\<close>) is outside the model.
\<close>

definition messagesToRemove :: "rat \<Rightarrow> int \<Rightarrow> int" where
  "messagesToRemove truncationPercentage numMessagesToConsider =
     (let product = roundToDouble
                      (of_int numMessagesToConsider * roundToDouble truncationPercentage);
          m0 = \<lceil>product\<rceil>;
          m1 = (if m0 mod 2 \<noteq> 0 then m0 + 1 else m0)
      in min m1 numMessagesToConsider)"

text \<open>
  The notice step: an entry for message 1 is created when it is missing and the message
  at index 1 of the history before truncation is an assistant message; when there is an
  entry, a notice is pushed on block 0 unless the latest update there is a notice already.
\<close>

definition addTruncationNotice ::
  "int \<Rightarrow> message list \<Rightarrow> PersistedContextHistory \<Rightarrow> PersistedContextHistory" where
  "addTruncationNotice timestamp historyToTruncate updatedModifications =
     (let mods1 =
            (if obj_get updatedModifications 1 = None then
               (if 1 < length historyToTruncate \<and> role (historyToTruncate ! 1) = Assistant
                then obj_set 1 \<lparr>editType = Assistant, blocks = []\<rparr> updatedModifications
                else updatedModifications)
             else updatedModifications)
      in case obj_get mods1 1 of
           None \<Rightarrow> mods1
         | Some entry \<Rightarrow>
             (let blockUpdates = (case obj_get (blocks entry) 0 of Some us \<Rightarrow> us | None \<Rightarrow> [])
              in if blockUpdates = [] \<or> fst (snd (last blockUpdates)) \<noteq> add_truncation_notice
                 then obj_set 1
                        (entry\<lparr>blocks :=
                           obj_set 0 (blockUpdates @ [(timestamp, add_truncation_notice, None, None)])
                             (blocks entry)\<rparr>)
                        mods1
                 else mods1))"

text \<open>
  The index adjustment: entries below index 2 are kept, entries above the last removed
  index move down by the number of removed messages, the others are dropped.
\<close>

definition adjustModificationIndices ::
  "int \<Rightarrow> int \<Rightarrow> PersistedContextHistory \<Rightarrow> PersistedContextHistory" where
  "adjustModificationIndices endIndexToRemove toRemove updatedModifications =
     fold (\<lambda>originalIndex newModifications.
             case obj_get updatedModifications originalIndex of
               None \<Rightarrow> newModifications
             | Some entry \<Rightarrow>
                 if int originalIndex < 2 then obj_set originalIndex entry newModifications
                 else if int originalIndex > endIndexToRemove
                 then obj_set (nat (int originalIndex - toRemove)) entry newModifications
                 else newModifications)
          (obj_keys updatedModifications) []"

definition applyTruncation ::
  "formatResponse \<Rightarrow> (string \<Rightarrow> nat) \<Rightarrow> rat \<Rightarrow> int \<Rightarrow> message list
     \<Rightarrow> PersistedContextHistory \<Rightarrow> rat \<Rightarrow> rat
     \<Rightarrow> message list \<times> PersistedContextHistory \<times> bool" where
  "applyTruncation fr tokenizer truncationPercentage timestamp historyToTruncate
       currentModifications maxTokens previousRequestTokenCount =
     (if previousRequestTokenCount > maxTokens then
        (let currentTokens = calculateTokens tokenizer historyToTruncate;
             startIndexToConsider = 2;
             numMessages = int (length historyToTruncate);
             numMessagesToConsider = numMessages - startIndexToConsider
         in if numMessagesToConsider > 0 then
              (let toRemove = messagesToRemove truncationPercentage numMessagesToConsider;
                   endIndexToRemove = startIndexToConsider + toRemove - 1;
                   preservedFirstPair = take 2 historyToTruncate;
                   remainingMessages = jsSliceFrom (endIndexToRemove + 1) historyToTruncate;
                   truncatedHistory = preservedFirstPair @ remainingMessages;
                   updatedModifications =
                     (if 1 < length truncatedHistory
                      then addTruncationNotice timestamp historyToTruncate currentModifications
                      else currentModifications)
               in (truncatedHistory,
                   adjustModificationIndices endIndexToRemove toRemove updatedModifications,
                   True))
            else (historyToTruncate, currentModifications, True))
      else (historyToTruncate, currentModifications, False))"

section \<open>The manager: \<open>processHistoryForApi\<close> and \<open>truncateHistoryUpdatesAtTimestamp\<close>\<close>

text \<open>
  The fields of the \<open>ContextManager\<close> class that the two operations read or write.
  \<open>persisted\<close> is the persistence port seen from the manager: the list of the logs
  handed to \<open>writePersistedContextHistory\<close>, oldest first.
  \<open>JSON.stringify(a) !== JSON.stringify(b)\<close> on two logs is their inequality: integer keys
  are serialised in ascending order, and the association lists are kept in that order.
\<close>

record ContextManager =
  contextHistoryUpdates :: PersistedContextHistory
  tokenizer :: "string \<Rightarrow> nat"
  truncationPercentage :: rat
  reservedResponseTokens :: rat
  tokenBuffer :: rat
  currentModelInfo :: "ModelInfo option"
  persisted :: "PersistedContextHistory list"

record ProcessedContextResult =
  processedHistory :: "message list"
  updatedModifications :: PersistedContextHistory
  tokensUsed :: nat
  wasTruncated :: bool

definition saveContextHistory :: "ContextManager \<Rightarrow> ContextManager" where
  "saveContextHistory cm = cm\<lparr>persisted := persisted cm @ [contextHistoryUpdates cm]\<rparr>"

text \<open>
  \<open>optTime\<close> and \<open>truncTime\<close> are the two readings of \<open>Date.now()\<close> of one call, in
  \<open>applyOptimizations\<close> and in \<open>applyTruncation\<close>.
\<close>

definition processHistoryForApi ::
  "formatResponse \<Rightarrow> int \<Rightarrow> int \<Rightarrow> ContextManager \<Rightarrow> message list \<Rightarrow> rat
     \<Rightarrow> ProcessedContextResult \<times> ContextManager" where
  "processHistoryForApi fr optTime truncTime cm rawApiConversationHistory
       previousRequestTokenCount =
     (let optimizedModifications =
            applyOptimizations fr optTime rawApiConversationHistory (contextHistoryUpdates cm);
          historyAfterUpdates =
            applyContextHistoryUpdates fr (contextHistoryUpdates cm) rawApiConversationHistory;
          historyAfterOptimizations =
            applyModificationsToHistory fr historyAfterUpdates optimizedModifications;
          calculatedMaxAllowedSize = snd (getContextWindowInfo (currentModelInfo cm));
          maxTokensForContext =
            calculatedMaxAllowedSize - reservedResponseTokens cm - tokenBuffer cm
      in if maxTokensForContext \<le> 0 then
           (\<lparr>processedHistory = rawApiConversationHistory,
             updatedModifications = contextHistoryUpdates cm,
             tokensUsed = calculateTokens (tokenizer cm) rawApiConversationHistory,
             wasTruncated = False\<rparr>, cm)
         else
           (case applyTruncation fr (tokenizer cm) (truncationPercentage cm) truncTime
                   historyAfterOptimizations optimizedModifications maxTokensForContext
                   previousRequestTokenCount of
              (finalHistory, finalModifications, truncated) \<Rightarrow>
                (let finalTokensUsed = calculateTokens (tokenizer cm) finalHistory;
                     cm' = (if contextHistoryUpdates cm \<noteq> finalModifications
                            then saveContextHistory (cm\<lparr>contextHistoryUpdates := finalModifications\<rparr>)
                            else cm)
                 in (\<lparr>processedHistory = finalHistory,
                      updatedModifications = contextHistoryUpdates cm',
                      tokensUsed = finalTokensUsed,
                      wasTruncated = truncated\<rparr>, cm'))))"

text \<open>
  \<open>updateModelInfo\<close> stores the new descriptor when its serialisation differs from
  that of the current one.
\<close>

definition updateModelInfo :: "ModelInfo option \<Rightarrow> ContextManager \<Rightarrow> ContextManager" where
  "updateModelInfo newModelInfo cm =
     (if currentModelInfo cm \<noteq> newModelInfo then cm\<lparr>currentModelInfo := newModelInfo\<rparr>
      else cm)"

text \<open>The inner loop of the rollback, over the blocks of one message entry.\<close>

definition rollbackBlocks :: "int \<Rightarrow> ContextUpdate list obj \<Rightarrow> ContextUpdate list obj" where
  "rollbackBlocks timestamp blks =
     fold (\<lambda>blkIndex newBlocks.
             case obj_get blks blkIndex of
               None \<Rightarrow> newBlocks
             | Some updates \<Rightarrow>
                 (let validUpdates = filter (\<lambda>update. fst update \<le> timestamp) updates
                  in if 0 < length validUpdates then obj_set blkIndex validUpdates newBlocks
                     else newBlocks))
          (obj_keys blks) []"

text \<open>The outer loop; \<open>blockAdded\<close> holds exactly when \<open>newBlocks\<close> received a block.\<close>

definition rollbackModifications ::
  "int \<Rightarrow> PersistedContextHistory \<Rightarrow> PersistedContextHistory" where
  "rollbackModifications timestamp mods =
     fold (\<lambda>msgIndex newModifications.
             case obj_get mods msgIndex of
               None \<Rightarrow> newModifications
             | Some messageData \<Rightarrow>
                 (let newBlocks = rollbackBlocks timestamp (blocks messageData);
                      blockAdded = (newBlocks \<noteq> [])
                  in if blockAdded
                     then obj_set msgIndex
                            \<lparr>editType = editType messageData, blocks = newBlocks\<rparr> newModifications
                     else newModifications))
          (obj_keys mods) []"

definition truncateHistoryUpdatesAtTimestamp :: "int \<Rightarrow> ContextManager \<Rightarrow> ContextManager" where
  "truncateHistoryUpdatesAtTimestamp timestamp cm =
     (let newModifications = rollbackModifications timestamp (contextHistoryUpdates cm)
      in if newModifications \<noteq> contextHistoryUpdates cm
         then saveContextHistory (cm\<lparr>contextHistoryUpdates := newModifications\<rparr>)
         else cm)"

section \<open>Reading the edit log\<close>

text \<open>
  The list of updates recorded for block \<open>b\<close> of message \<open>i\<close>, empty when the message
  or the block has no entry.
\<close>

definition editsAt :: "PersistedContextHistory \<Rightarrow> nat \<Rightarrow> nat \<Rightarrow> ContextUpdate list" where
  "editsAt L i b =
     (case obj_get L i of
        None \<Rightarrow> []
      | Some e \<Rightarrow> (case obj_get (blocks e) b of None \<Rightarrow> [] | Some us \<Rightarrow> us))"

text \<open>
  What the two loops of the applier do to one block and to one message: the effect of
  the latest update of the block, and of the updates of all blocks of the message.
\<close>

definition blockStep :: "formatResponse \<Rightarrow> ContextUpdate list obj \<Rightarrow> nat \<Rightarrow> block \<Rightarrow> block" where
  "blockStep fr blks b blk =
     (case obj_get blks b of
        None \<Rightarrow> blk
      | Some us \<Rightarrow> if us = [] then blk else applyLatestUpdate fr (last us) blk)"

definition messageStep :: "formatResponse \<Rightarrow> PersistedContextHistory \<Rightarrow> nat \<Rightarrow> message \<Rightarrow> message" where
  "messageStep fr mods i m =
     (case obj_get mods i of
        None \<Rightarrow> m
      | Some mu \<Rightarrow>
          (case content m of
             StringContent _ \<Rightarrow> m
           | BlockContent cont \<Rightarrow>
               m\<lparr>content := BlockContent
                    (fold (applyBlockUpdates fr (blocks mu)) (obj_keys (blocks mu)) cont)\<rparr>))"

text \<open>
  What one call of the elider adds: \<open>isElision ts u\<close> says that \<open>u\<close> is a
  \<open>replace_content\<close> update with a string payload stamped \<open>ts\<close>; \<open>targets i b os\<close>
  are the occurrences among \<open>os\<close> whose content block is block \<open>b\<close> of message \<open>i\<close>;
  \<open>appended ts L L' os\<close> says that \<open>L'\<close> is \<open>L\<close> with one such update appended per
  occurrence of \<open>os\<close>, at the block of that occurrence. \<open>elidedOccurrences\<close> are the
  occurrences of every path but its last, in the order of the map.
\<close>

definition isElision :: "int \<Rightarrow> ContextUpdate \<Rightarrow> bool" where
  "isElision ts u = (fst u = ts \<and> fst (snd u) = replace_content \<and> fst (snd (snd u)) \<noteq> None)"

definition targets :: "nat \<Rightarrow> nat \<Rightarrow> FileReadOccurrence list \<Rightarrow> FileReadOccurrence list" where
  "targets i b os = filter (\<lambda>occ. messageIndex occ = i \<and> blockIndex occ = b) os"

definition appended ::
  "int \<Rightarrow> PersistedContextHistory \<Rightarrow> PersistedContextHistory \<Rightarrow> FileReadOccurrence list \<Rightarrow> bool" where
  "appended ts L L' os =
     (\<forall>i b. \<exists>new. editsAt L' i b = editsAt L i b @ new
                 \<and> length new = length (targets i b os)
                 \<and> (\<forall>u \<in> set new. isElision ts u))"

definition elidedOccurrences :: "message list \<Rightarrow> FileReadOccurrence list" where
  "elidedOccurrences rawHistory =
     concat (map (\<lambda>(path, occurrences). butlast occurrences) (findDuplicateFileReads rawHistory))"

text \<open>
  The clock readings recorded anywhere in a log, and the condition under which a call of
  \<open>processHistoryForApi\<close> keeps an update of its elider in the log it leaves: some elided
  occurrence is such that the call does not truncate (the previous token count is within
  the limit, or there are no messages after the first pair), or the occurrence is in one
  of the first two messages, or it is in a message after the removed range and the
  reading of the elider's clock is not yet in the log.
\<close>

definition timestampsOf :: "PersistedContextHistory \<Rightarrow> int list" where
  "timestampsOf L =
     concat (map (\<lambda>(i, entry). concat (map (\<lambda>(b, updates). map fst updates) (blocks entry))) L)"

definition elisionSurvives :: "int \<Rightarrow> ContextManager \<Rightarrow> message list \<Rightarrow> rat \<Rightarrow> bool" where
  "elisionSurvives optTime cm rawHistory previousTokens =
     (let maxTokensForContext =
            snd (getContextWindowInfo (currentModelInfo cm))
              - reservedResponseTokens cm - tokenBuffer cm;
          endIndexToRemove =
            1 + messagesToRemove (truncationPercentage cm) (int (length rawHistory) - 2)
      in \<exists>occ \<in> set (elidedOccurrences rawHistory).
           previousTokens \<le> maxTokensForContext
           \<or> length rawHistory \<le> 2
           \<or> messageIndex occ < 2
           \<or> (endIndexToRemove < int (messageIndex occ)
               \<and> optTime \<notin> set (timestampsOf (contextHistoryUpdates cm))))"

text \<open>Every occurrence recorded for a history of \<open>n\<close> messages points into it.\<close>

definition validReads :: "nat \<Rightarrow> fileReadsMap \<Rightarrow> bool" where
  "validReads n fileReads =
     (\<forall>(path, occs) \<in> set fileReads. \<forall>occ \<in> set occs. messageIndex occ < n)"

section \<open>Reachable managers\<close>

text \<open>
  \<open>noticeInvariant\<close>: every \<open>add_truncation_notice\<close> update of the log sits at block 0
  of message 1. A manager is reachable when it starts with an empty log and is then
  driven by \<open>processHistoryForApi\<close>, \<open>truncateHistoryUpdatesAtTimestamp\<close> and
  \<open>updateModelInfo\<close>, with any arguments.
\<close>

definition noticeInvariant :: "PersistedContextHistory \<Rightarrow> bool" where
  "noticeInvariant L =
     (\<forall>i b u. u \<in> set (editsAt L i b) \<and> fst (snd u) = add_truncation_notice
              \<longrightarrow> i = 1 \<and> b = 0)"

inductive reachable :: "ContextManager \<Rightarrow> bool" where
  initial: "contextHistoryUpdates cm = [] \<Longrightarrow> reachable cm"
| process: "reachable cm \<Longrightarrow>
     reachable (snd (processHistoryForApi fr optTime truncTime cm rawHistory previousTokens))"
| rollback: "reachable cm \<Longrightarrow> reachable (truncateHistoryUpdatesAtTimestamp timestamp cm)"
| model: "reachable cm \<Longrightarrow> reachable (updateModelInfo newModelInfo cm)"

section \<open>Fixtures\<close>

text \<open>
  \<open>createMessage\<close> of the test file builds a message with one text block. The notice
  strings and the manager below are the ones the examples are evaluated with; the
  tokenizer counts characters.
\<close>

definition createMessage :: "role \<Rightarrow> string \<Rightarrow> message" where
  "createMessage r t = \<lparr>role = r, content = BlockContent [TextBlock t]\<rparr>"

definition notices :: formatResponse where
  "notices = \<lparr>contextTruncationNotice = ''[trunc]'', duplicateFileReadNotice = ''[dup]''\<rparr>"

definition newManager :: "ModelInfo option \<Rightarrow> ContextManager" where
  "newManager info =
     \<lparr>contextHistoryUpdates = [], tokenizer = length, truncationPercentage = 1 / 2,
      reservedResponseTokens = 1000, tokenBuffer = 500, currentModelInfo = info,
      persisted = []\<rparr>"

text \<open>The text of a mention and of a tool-result header for a path.\<close>

definition mention :: "string \<Rightarrow> string \<Rightarrow> string" where
  "mention path body = mentionOpen @ path @ [CHR 0x22, CHR ''>''] @ body @ mentionClose"

definition readFileHeader :: "string \<Rightarrow> string" where
  "readFileHeader path = ''[read_file for '' @ [CHR 0x27] @ path @ [CHR 0x27] @ ''] Result:''"

text \<open>
  \<open>createLongHistory(5)\<close>, the modification of the last message and the log of the
  rollback test, as in the test file (with small numbers for the clock readings).
\<close>

definition tenMessages :: "message list" where
  "tenMessages =
     [createMessage User ''User message 0'', createMessage Assistant ''Assistant response 0'',
      createMessage User ''User message 1'', createMessage Assistant ''Assistant response 1'',
      createMessage User ''User message 2'', createMessage Assistant ''Assistant response 2'',
      createMessage User ''User message 3'', createMessage Assistant ''Assistant response 3'',
      createMessage User ''User message 4'', createMessage Assistant ''Assistant response 4'']"

definition modifiedLast :: PersistedContextHistory where
  "modifiedLast =
     [(9, \<lparr>editType = Assistant,
           blocks = [(0, [(5, replace_content, Some ''Modified last response'',
                           Some \<lparr>originalPath = None, replacedMention = False\<rparr>)])]\<rparr>)]"

text \<open>
  A history of 27 messages, so that 25 are considered, and a modification of message 20.
\<close>

definition longHistory :: "message list" where
  "longHistory =
     map (\<lambda>i. createMessage (if even i then User else Assistant) ''message'') [0..<27]"

definition modifiedLate :: PersistedContextHistory where
  "modifiedLate =
     [(20, \<lparr>editType = User,
            blocks = [(0, [(5, replace_content, Some ''Modified'',
                            Some \<lparr>originalPath = None, replacedMention = False\<rparr>)])]\<rparr>)]"

definition rollbackLog :: PersistedContextHistory where
  "rollbackLog =
     [(0, \<lparr>editType = User,
           blocks = [(0, [(100, replace_content, Some ''Update 1'', None),
                          (300, replace_content, Some ''Update 3'', None)])]\<rparr>),
      (1, \<lparr>editType = Assistant,
           blocks = [(0, [(200, replace_content, Some ''Update 2'', None)])]\<rparr>)]"

text \<open>
  Histories with repeated file reads: two mentions of one path; two mentions that a
  truncation removes the first of; two mentions after the range a truncation removes; an
  assistant message made of a tool invocation; and a tool result whose content block
  holds the last mention of another path.
\<close>

definition mentionHistory :: "message list" where
  "mentionHistory =
     [createMessage User (''A '' @ mention ''a.ts'' ''X''),
      createMessage Assistant ''ok'',
      createMessage User (''B '' @ mention ''a.ts'' ''X'')]"

definition evictedMentionHistory :: "message list" where
  "evictedMentionHistory =
     [createMessage User ''hi'',
      createMessage Assistant ''hello'',
      createMessage User (mention ''a.ts'' ''X''),
      createMessage Assistant ''ok'',
      createMessage User (mention ''a.ts'' ''X''),
      createMessage Assistant ''ok'']"

definition lateMentionHistory :: "message list" where
  "lateMentionHistory =
     [createMessage User ''hi'', createMessage Assistant ''hello'',
      createMessage User ''one'', createMessage Assistant ''ok'',
      createMessage User ''two'', createMessage Assistant ''ok'',
      createMessage User (mention ''a.ts'' ''X''), createMessage Assistant ''ok'',
      createMessage User (mention ''a.ts'' ''X''), createMessage Assistant ''ok'']"

definition toolUseHistory :: "message list" where
  "toolUseHistory =
     [createMessage User ''hi'',
      \<lparr>role = Assistant, content = BlockContent [ToolUseBlock ''read_file'' ''{}'']\<rparr>,
      createMessage User ''more'',
      createMessage Assistant ''ok'']"

definition overlapHistory :: "message list" where
  "overlapHistory =
     [createMessage User (mention ''g.ts'' ''Z''),
      createMessage Assistant ''ok'',
      \<lparr>role = User,
       content = BlockContent [TextBlock (readFileHeader ''f.ts''), TextBlock (mention ''g.ts'' ''Z'')]\<rparr>,
      createMessage Assistant ''ok'',
      \<lparr>role = User,
       content = BlockContent [TextBlock (readFileHeader ''f.ts''), TextBlock ''CONTENT'']\<rparr>]"

definition threeMessages :: "message list" where
  "threeMessages =
     [createMessage User ''User message 0'',
      createMessage Assistant ''Assistant response 0'',
      createMessage User ''User message 1'']"

section \<open>Properties of objects\<close>

lemma obj_get_obj_set:
  "obj_get (obj_set k v kvs) k' = (if k' = k then Some v else obj_get kvs k')"
  by (induction kvs) (auto simp: obj_get_def)

lemma obj_get_Nil: "obj_get [] k = None"
  by (simp add: obj_get_def)

lemma obj_get_None_iff: "obj_get kvs k = None \<longleftrightarrow> k \<notin> set (obj_keys kvs)"
  by (simp add: obj_get_def obj_keys_def map_of_eq_None_iff)

lemma obj_get_Some_key: "obj_get kvs k = Some v \<Longrightarrow> k \<in> set (obj_keys kvs)"
  using obj_get_None_iff [of kvs k] by auto

lemma obj_empty_iff: "kvs = [] \<longleftrightarrow> (\<forall>k. obj_get kvs k = None)"
proof (cases kvs)
  case Nil
  then show ?thesis by (simp add: obj_get_def)
next
  case (Cons kv rest)
  then have "obj_get kvs (fst kv) \<noteq> None"
    by (cases kv) (simp add: obj_get_def)
  with Cons show ?thesis by auto
qed

lemma obj_get_Cons:
  "obj_get ((k, v) # kvs) k' = (if k' = k then Some v else obj_get kvs k')"
  by (simp add: obj_get_def)

section \<open>Properties of the applier\<close>

lemma fold_update_length:
  assumes "\<And>k ys. step k ys = (if k < length ys then ys[k := g k (ys ! k)] else ys)"
  shows "length (fold step ks xs) = length xs"
  by (induction ks arbitrary: xs) (simp_all add: assms)

lemma fold_update_nth:
  assumes step: "\<And>k ys. step k ys = (if k < length ys then ys[k := g k (ys ! k)] else ys)"
    and idem: "\<And>k x. g k (g k x) = g k x"
    and i: "i < length xs"
  shows "fold step ks xs ! i = (if i \<in> set ks then g i (xs ! i) else xs ! i)"
  using i
proof (induction ks arbitrary: xs)
  case Nil
  then show ?case by simp
next
  case (Cons k ks)
  have len: "i < length (step k xs)"
    using Cons.prems by (simp add: step)
  have here: "step k xs ! i = (if i = k then g k (xs ! i) else xs ! i)"
    using Cons.prems by (simp add: step)
  have "fold step (k # ks) xs ! i = fold step ks (step k xs) ! i"
    by simp
  also have "\<dots> = (if i \<in> set ks then g i (step k xs ! i) else step k xs ! i)"
    by (rule Cons.IH [OF len])
  also have "\<dots> = (if i \<in> set (k # ks) then g i (xs ! i) else xs ! i)"
    unfolding here by (simp add: idem)
  finally show ?case .
qed

lemma fold_update_idem:
  assumes step: "\<And>k ys. step k ys = (if k < length ys then ys[k := g k (ys ! k)] else ys)"
    and idem: "\<And>k x. g k (g k x) = g k x"
  shows "fold step ks (fold step ks xs) = fold step ks xs"
proof (rule nth_equalityI)
  show "length (fold step ks (fold step ks xs)) = length (fold step ks xs)"
    by (simp add: fold_update_length [of step g, OF step])
next
  fix i assume "i < length (fold step ks (fold step ks xs))"
  then have i: "i < length xs" and i': "i < length (fold step ks xs)"
    by (simp_all add: fold_update_length [of step g, OF step])
  show "fold step ks (fold step ks xs) ! i = fold step ks xs ! i"
    by (simp add: fold_update_nth [of step g, OF step idem i']
        fold_update_nth [of step g, OF step idem i] idem)
qed

lemma applyLatestUpdate_idem:
  "applyLatestUpdate fr u (applyLatestUpdate fr u b) = applyLatestUpdate fr u b"
  by (cases u; cases b)
     (auto simp: applyLatestUpdate_def Let_def split: updateType.splits option.splits)

lemma applyBlockUpdates_step:
  "applyBlockUpdates fr blks k ys =
     (if k < length ys then ys[k := blockStep fr blks k (ys ! k)] else ys)"
  by (auto simp: applyBlockUpdates_def blockStep_def split: option.splits)

lemma blockStep_idem: "blockStep fr blks b (blockStep fr blks b x) = blockStep fr blks b x"
  by (simp add: blockStep_def applyLatestUpdate_idem split: option.splits)

lemma applyMessageUpdates_step:
  "applyMessageUpdates fr mods k ys =
     (if k < length ys then ys[k := messageStep fr mods k (ys ! k)] else ys)"
  by (auto simp: applyMessageUpdates_def messageStep_def split: option.splits content.splits)

lemma messageStep_idem: "messageStep fr mods i (messageStep fr mods i m) = messageStep fr mods i m"
  by (simp add: messageStep_def
      fold_update_idem [of "applyBlockUpdates fr blks" "blockStep fr blks" for blks,
        OF applyBlockUpdates_step blockStep_idem]
      split: option.splits content.splits)

text \<open>
  Claim C1 (applier idempotence): for every history and every edit log, applying the log
  to the already prepared history gives the prepared history again; and a truncation
  notice applied to a block that already received it changes nothing, so the notice is
  never prefixed twice.
\<close>

theorem applyModificationsToHistory_idempotent:
  "applyModificationsToHistory fr (applyModificationsToHistory fr H L) L
     = applyModificationsToHistory fr H L
   \<and> applyLatestUpdate fr (t2, add_truncation_notice, p2, m2)
       (applyLatestUpdate fr (t1, add_truncation_notice, p1, m1) b)
     = applyLatestUpdate fr (t1, add_truncation_notice, p1, m1) b"
proof
  show "applyModificationsToHistory fr (applyModificationsToHistory fr H L) L
     = applyModificationsToHistory fr H L"
    unfolding applyModificationsToHistory_def
    by (rule fold_update_idem [of "applyMessageUpdates fr L" "messageStep fr L",
          OF applyMessageUpdates_step messageStep_idem])
next
  show "applyLatestUpdate fr (t2, add_truncation_notice, p2, m2)
       (applyLatestUpdate fr (t1, add_truncation_notice, p1, m1) b)
     = applyLatestUpdate fr (t1, add_truncation_notice, p1, m1) b"
    by (cases b) (auto simp: applyLatestUpdate_def Let_def)
qed

text \<open>The prepared history, message by message.\<close>

lemma applyModificationsToHistory_length:
  "length (applyModificationsToHistory fr H L) = length H"
  unfolding applyModificationsToHistory_def
  by (rule fold_update_length [of "applyMessageUpdates fr L" "messageStep fr L",
        OF applyMessageUpdates_step])

lemma applyModificationsToHistory_nth:
  assumes "i < length H"
  shows "applyModificationsToHistory fr H L ! i = messageStep fr L i (H ! i)"
proof -
  have "applyModificationsToHistory fr H L ! i =
      (if i \<in> set (obj_keys L) then messageStep fr L i (H ! i) else H ! i)"
    unfolding applyModificationsToHistory_def
    by (rule fold_update_nth [of "applyMessageUpdates fr L" "messageStep fr L",
          OF applyMessageUpdates_step messageStep_idem assms])
  moreover have "i \<notin> set (obj_keys L) \<Longrightarrow> messageStep fr L i (H ! i) = H ! i"
    by (simp add: messageStep_def obj_get_None_iff [symmetric])
  ultimately show ?thesis by auto
qed

lemma messageStep_untouched_block:
  assumes "editsAt L i b = []" and "content m = BlockContent cont" and "b < length cont"
  shows "\<exists>cont'. content (messageStep fr L i m) = BlockContent cont'
           \<and> length cont' = length cont \<and> cont' ! b = cont ! b"
proof (cases "obj_get L i")
  case None
  then show ?thesis using assms by (simp add: messageStep_def)
next
  case (Some mu)
  define cont' where
    "cont' = fold (applyBlockUpdates fr (blocks mu)) (obj_keys (blocks mu)) cont"
  have len: "length cont' = length cont"
    unfolding cont'_def
    by (rule fold_update_length [of "applyBlockUpdates fr (blocks mu)" "blockStep fr (blocks mu)",
          OF applyBlockUpdates_step])
  have "cont' ! b = (if b \<in> set (obj_keys (blocks mu)) then blockStep fr (blocks mu) b (cont ! b)
                     else cont ! b)"
    unfolding cont'_def
    by (rule fold_update_nth [of "applyBlockUpdates fr (blocks mu)" "blockStep fr (blocks mu)",
          OF applyBlockUpdates_step blockStep_idem assms(3)])
  moreover have "blockStep fr (blocks mu) b (cont ! b) = cont ! b"
    using assms(1) Some by (simp add: blockStep_def editsAt_def split: option.splits)
  ultimately have "cont' ! b = cont ! b" by simp
  with len Some assms(2) show ?thesis
    by (simp add: messageStep_def cont'_def)
qed

section \<open>Properties of the budget oracle\<close>

text \<open>
  Claim C6 (budget oracle policy): a missing descriptor, a missing window and a zero
  window give window 128 000 and the 128 000 rule; window 64 000 gives 64 000 - 27 000,
  window 128 000 gives 128 000 - 30 000, window 200 000 gives 200 000 - 40 000; every
  other window W gives W - max(0.20 W, 40 000), raised to at least W/2 and at least 1 000.
\<close>

theorem getContextWindowInfo_policy:
  "getContextWindowInfo None = (128000, 128000 - 30000)
   \<and> (contextWindow mi = None \<or> contextWindow mi = Some 0
        \<longrightarrow> getContextWindowInfo (Some mi) = (128000, 128000 - 30000))
   \<and> (contextWindow mi = Some 64000
        \<longrightarrow> getContextWindowInfo (Some mi) = (64000, 64000 - 27000))
   \<and> (contextWindow mi = Some 128000
        \<longrightarrow> getContextWindowInfo (Some mi) = (128000, 128000 - 30000))
   \<and> (contextWindow mi = Some 200000
        \<longrightarrow> getContextWindowInfo (Some mi) = (200000, 200000 - 40000))
   \<and> (contextWindow mi = Some W \<and> W \<notin> {0, 64000, 128000, 200000}
        \<longrightarrow> getContextWindowInfo (Some mi)
            = (W, max (max (W - max (2 / 10 * W) 40000) (W / 2)) 1000))"
  by (auto simp: getContextWindowInfo_def Let_def)

theorem getContextWindowInfo_policy_witness:
  "contextWindow \<lparr>contextWindow = Some 100000\<rparr> = Some 100000
   \<and> (100000::rat) \<notin> {0, 64000, 128000, 200000}
   \<and> getContextWindowInfo (Some \<lparr>contextWindow = Some 100000\<rparr>) = (100000, 60000)
   \<and> getContextWindowInfo (Some \<lparr>contextWindow = Some 50000\<rparr>) = (50000, 25000)
   \<and> getContextWindowInfo (Some \<lparr>contextWindow = Some 1500\<rparr>) = (1500, 1000)
   \<and> getContextWindowInfo (Some \<lparr>contextWindow = None\<rparr>) = (128000, 98000)
   \<and> getContextWindowInfo (Some \<lparr>contextWindow = Some 64000\<rparr>) = (64000, 37000)"
  using getContextWindowInfo_policy [of "\<lparr>contextWindow = Some 100000\<rparr>" 100000]
    getContextWindowInfo_policy [of "\<lparr>contextWindow = Some 50000\<rparr>" 50000]
    getContextWindowInfo_policy [of "\<lparr>contextWindow = Some 1500\<rparr>" 1500]
    getContextWindowInfo_policy [of "\<lparr>contextWindow = None\<rparr>" 0]
    getContextWindowInfo_policy [of "\<lparr>contextWindow = Some 64000\<rparr>" 0]
  by simp

section \<open>Properties of the truncator\<close>

text \<open>The rounded product of a count and a share that are not negative is not negative.\<close>

lemma pow2_positive: "0 < pow2 e"
proof (induction e rule: pow2.induct)
  case (1 e)
  then show ?case by (subst pow2.simps) auto
qed

lemma roundTiesToEven_nonneg: "0 \<le> y \<Longrightarrow> 0 \<le> roundTiesToEven y"
  by (auto simp: roundTiesToEven_def Let_def)

lemma roundToDouble_nonneg:
  assumes "0 \<le> x"
  shows "0 \<le> roundToDouble x"
proof (cases "x = 0")
  case True
  then show ?thesis by (simp add: roundToDouble_def)
next
  case False
  define ulp where "ulp = pow2 (max (binaryExponent \<bar>x\<bar>) (- 1022) - 52)"
  have ulp: "0 < ulp"
    unfolding ulp_def by (rule pow2_positive)
  then have "0 \<le> x / ulp"
    using assms by simp
  then have "0 \<le> roundTiesToEven (x / ulp)"
    by (rule roundTiesToEven_nonneg)
  then have "0 \<le> of_int (roundTiesToEven (x / ulp)) * ulp"
    using ulp by simp
  then show ?thesis
    using False by (simp add: roundToDouble_def Let_def ulp_def)
qed

lemma messagesToRemove_bounds:
  assumes "0 \<le> phi" and "0 < n"
  shows "0 \<le> messagesToRemove phi n" and "messagesToRemove phi n \<le> n"
proof -
  have "0 \<le> of_int n * roundToDouble phi"
    using assms by (simp add: roundToDouble_nonneg)
  then have "0 \<le> roundToDouble (of_int n * roundToDouble phi)"
    by (rule roundToDouble_nonneg)
  then have "0 \<le> \<lceil>roundToDouble (of_int n * roundToDouble phi)\<rceil>"
    by simp
  then show "0 \<le> messagesToRemove phi n"
    using assms by (simp add: messagesToRemove_def Let_def)
  show "messagesToRemove phi n \<le> n"
    by (simp add: messagesToRemove_def Let_def)
qed

text \<open>
  The count at the shares of the tests, and at a share whose double product is not the
  exact one: 25 times 0.56 is 14.000000000000002 in doubles, so 16 messages go.
\<close>

lemma messagesToRemove_examples:
  "messagesToRemove (1 / 2) 1 = 1"
  "messagesToRemove (1 / 2) 2 = 2"
  "messagesToRemove (1 / 2) 4 = 2"
  "messagesToRemove (1 / 2) 8 = 4"
  "messagesToRemove (3 / 4) 10 = 8"
  "messagesToRemove (56 / 100) 25 = 16"
  by code_simp+

text \<open>
  Claim C5 (truncation trigger): \<open>applyTruncation\<close> reports a truncation exactly when the
  previous request's token count is strictly above the limit; when it is not, the history
  and the edit log come back unchanged with \<open>wasTruncated = false\<close>, so the history can
  only change above the limit; and the result is the same for every tokenizer, so the
  estimated size of the current history takes no part in the decision.
\<close>

theorem applyTruncation_trigger:
  "(snd (snd (applyTruncation fr tok phi ts H L maxTokens P)) \<longleftrightarrow> P > maxTokens)
   \<and> (P \<le> maxTokens \<longrightarrow> applyTruncation fr tok phi ts H L maxTokens P = (H, L, False))
   \<and> (fst (applyTruncation fr tok phi ts H L maxTokens P) \<noteq> H \<longrightarrow> P > maxTokens)
   \<and> applyTruncation fr tok' phi ts H L maxTokens P
       = applyTruncation fr tok phi ts H L maxTokens P"
  by (auto simp: applyTruncation_def Let_def)

theorem applyTruncation_trigger_witness:
  "(13::rat) \<le> 13
   \<and> applyTruncation notices length (1 / 2) 7 threeMessages [] 13 13
       = (threeMessages, [], False)
   \<and> fst (applyTruncation notices length (1 / 2) 7 threeMessages [] 13 21) \<noteq> threeMessages
   \<and> (21::rat) > 13
   \<and> snd (snd (applyTruncation notices length (1 / 2) 7 threeMessages [] 13 21))"
proof -
  have changed: "fst (applyTruncation notices length (1 / 2) 7 threeMessages [] 13 21)
      \<noteq> threeMessages"
    by (simp add: applyTruncation_def threeMessages_def messagesToRemove_examples
        jsSliceFrom_def Let_def)
  show ?thesis
    using changed
      applyTruncation_trigger [of notices length "1 / 2" 7 threeMessages "[]" 13 13 length]
      applyTruncation_trigger [of notices length "1 / 2" 7 threeMessages "[]" 13 21 length]
    by simp
qed

text \<open>The number removed is even unless the clip to the available messages applies.\<close>

lemma messagesToRemove_parity:
  "even (messagesToRemove phi n) \<or> messagesToRemove phi n = n"
  by (auto simp: messagesToRemove_def Let_def min_def)

text \<open>
  The shape of a truncation that removes messages: the first two messages, then the
  suffix that starts after the removed range.
\<close>

lemma applyTruncation_history:
  assumes "P > maxTokens" and "2 < length H" and "0 \<le> phi"
  shows "fst (applyTruncation fr tok phi ts H L maxTokens P)
           = take 2 H @ drop (2 + nat (messagesToRemove phi (int (length H) - 2))) H"
proof -
  have "0 \<le> messagesToRemove phi (int (length H) - 2)"
    using assms by (intro messagesToRemove_bounds) simp_all
  then show ?thesis
    using assms by (simp add: applyTruncation_def Let_def jsSliceFrom_def nat_add_distrib)
qed

text \<open>
  Claim C2 (eviction parity) at a history of three messages with the default share
  \<open>0.5\<close>: one message is considered, the ceiling of \<open>0.5\<close> is 1, made even it is 2, and
  the clip to the one message available brings it back to 1. The truncation removes
  exactly one message, the last user message, and keeps the first pair.
\<close>

theorem applyTruncation_evicts_odd:
  "messagesToRemove (1 / 2) (int (length threeMessages) - 2) = 1
   \<and> fst (applyTruncation notices tok (1 / 2) ts threeMessages [] 13 21) = take 2 threeMessages
   \<and> length threeMessages
       - length (fst (applyTruncation notices tok (1 / 2) ts threeMessages [] 13 21)) = 1
   \<and> snd (snd (applyTruncation notices tok (1 / 2) ts threeMessages [] 13 21))"
  by (simp add: applyTruncation_def threeMessages_def messagesToRemove_examples
      jsSliceFrom_def Let_def)

text \<open>The index adjustment, read through lookups.\<close>

lemma adjust_fold:
  fixes L :: PersistedContextHistory and m :: int
  defines "f \<equiv> (\<lambda>originalIndex newModifications.
             case obj_get L originalIndex of
               None \<Rightarrow> newModifications
             | Some entry \<Rightarrow>
                 if int originalIndex < 2 then obj_set originalIndex entry newModifications
                 else if int originalIndex > 1 + m
                 then obj_set (nat (int originalIndex - m)) entry newModifications
                 else newModifications)"
  shows "obj_get (fold f ks acc) k =
          (if k < 2 then (if k \<in> set ks \<and> obj_get L k \<noteq> None then obj_get L k else obj_get acc k)
           else (if 2 \<le> int k + m \<and> nat (int k + m) \<in> set ks
                    \<and> obj_get L (nat (int k + m)) \<noteq> None
                 then obj_get L (nat (int k + m))
                 else obj_get acc k))"
proof (induction ks arbitrary: acc)
  case Nil
  then show ?case by simp
next
  case (Cons j ks)
  show ?case
  proof (cases "obj_get L j")
    case None
    then have eq: "fold f (j # ks) acc = fold f ks acc" by (simp add: f_def)
    show ?thesis
      unfolding eq using Cons.IH [of acc] None by auto
  next
    case (Some e)
    consider (low) "j < 2" | (high) "2 \<le> j" "1 + m < int j" | (mid) "2 \<le> j" "\<not> 1 + m < int j"
      by linarith
    then show ?thesis
    proof cases
      case low
      then have eq: "fold f (j # ks) acc = fold f ks (obj_set j e acc)"
        using Some by (simp add: f_def)
      show ?thesis
        unfolding eq using Cons.IH [of "obj_set j e acc"] Some low
        by (auto simp: obj_get_obj_set)
    next
      case high
      define j' where "j' = nat (int j - m)"
      with high have j': "int j' = int j - m" "2 \<le> j'"
        by simp_all
      have hit: "k = j' \<longleftrightarrow> 2 \<le> int k + m \<and> nat (int k + m) = j" if "2 \<le> k" for k
        using j' high that by auto
      have eq: "fold f (j # ks) acc = fold f ks (obj_set j' e acc)"
        using Some high by (simp add: f_def j'_def)
      show ?thesis
      proof (cases "k < 2")
        case True
        then show ?thesis
          unfolding eq using Cons.IH [of "obj_set j' e acc"] Some j' high
          by (auto simp: obj_get_obj_set)
      next
        case False
        then have k: "2 \<le> k" by simp
        show ?thesis
          unfolding eq using Cons.IH [of "obj_set j' e acc"] Some hit [OF k] False
          by (auto simp: obj_get_obj_set)
      qed
    next
      case mid
      then have eq: "fold f (j # ks) acc = fold f ks acc"
        using Some by (simp add: f_def)
      show ?thesis
        unfolding eq using Cons.IH [of acc] Some mid
        by auto
    qed
  qed
qed

lemma adjustModificationIndices_shift:
  "obj_get (adjustModificationIndices (1 + m) m L) k =
     (if k < 2 then obj_get L k
      else if 2 \<le> int k + m then obj_get L (nat (int k + m)) else None)"
proof -
  have none: "\<And>j. j \<notin> set (obj_keys L) \<Longrightarrow> obj_get L j = None"
    by (simp add: obj_get_None_iff)
  show ?thesis
    unfolding adjustModificationIndices_def adjust_fold [where acc = "[]"]
    by (cases "obj_get L k"; cases "obj_get L (nat (int k + m))")
       (auto simp: obj_get_Nil dest: none)
qed

lemma adjustModificationIndices_get:
  "obj_get (adjustModificationIndices (1 + int r) (int r) L) k =
     (if k < 2 then obj_get L k else obj_get L (k + r))"
  by (simp add: adjustModificationIndices_shift nat_add_distrib)

lemma obj_get_addTruncationNotice:
  "k \<noteq> 1 \<Longrightarrow> obj_get (addTruncationNotice ts H L) k = obj_get L k"
  by (auto simp: addTruncationNotice_def Let_def obj_get_obj_set split: option.splits)

text \<open>
  Claim C3 (index shift): when a truncation removes \<open>remove\<close> messages, the range of
  indices 2 to \<open>1 + remove\<close>, from a history of more than two messages, the rewritten
  log holds at key 0 the entry of key 0, at key 1 the entry the notice step left at key
  1, and at every key \<open>k \<ge> 2\<close> the entry whose original index was \<open>k + remove\<close>, with its
  \<open>editType\<close>, blocks and updates as they were; it holds nothing else. So an entry with
  original index \<open>j < 2\<close> keeps key \<open>j\<close>, an entry with original index
  \<open>j \<ge> 2 + remove\<close> is found at key \<open>j - remove\<close>, and no entry whose original index
  lies in the removed range is in the rewritten log.
\<close>

theorem applyTruncation_index_shift:
  assumes "P > maxTokens" and "2 < length H" and "0 \<le> phi"
  shows "obj_get (fst (snd (applyTruncation fr tok phi ts H L maxTokens P))) k =
     (if k = 0 then obj_get L 0
      else if k = 1 then obj_get (addTruncationNotice ts H L) 1
      else obj_get L (k + nat (messagesToRemove phi (int (length H) - 2))))"
proof -
  have "0 \<le> messagesToRemove phi (int (length H) - 2)"
    using assms by (intro messagesToRemove_bounds) simp_all
  then obtain r where r: "messagesToRemove phi (int (length H) - 2) = int r"
    using nonneg_int_cases by blast
  have "fst (snd (applyTruncation fr tok phi ts H L maxTokens P))
      = adjustModificationIndices (1 + int r) (int r) (addTruncationNotice ts H L)"
    using assms by (simp add: applyTruncation_def Let_def r)
  then show ?thesis
    by (simp add: adjustModificationIndices_get obj_get_addTruncationNotice r)
qed

theorem applyTruncation_index_shift_witness:
  "(21::rat) > 13 \<and> 2 < length tenMessages \<and> (0::rat) \<le> 1 / 2
   \<and> nat (messagesToRemove (1 / 2) (int (length tenMessages) - 2)) = 4
   \<and> obj_get (fst (snd (applyTruncation notices length (1 / 2) 7 tenMessages modifiedLast 13 21))) 5
       = obj_get modifiedLast 9
   \<and> obj_get (fst (snd (applyTruncation notices length (1 / 2) 7 tenMessages modifiedLast 13 21))) 9
       = None
   \<and> 2 < length longHistory \<and> (0::rat) \<le> 56 / 100
   \<and> nat (messagesToRemove (56 / 100) (int (length longHistory) - 2)) = 16
   \<and> obj_get (fst (snd (applyTruncation notices length (56 / 100) 7 longHistory modifiedLate 13 21))) 4
       = obj_get modifiedLate 20
   \<and> obj_get (fst (snd (applyTruncation notices length (56 / 100) 7 longHistory modifiedLate 13 21))) 6
       = None
   \<and> obj_get (fst (snd (applyTruncation notices length (56 / 100) 7 longHistory modifiedLate 13 21))) 20
       = None"
proof -
  have h: "(21::rat) > 13" "2 < length tenMessages" "(0::rat) \<le> 1 / 2"
    by (simp_all add: tenMessages_def)
  have r: "nat (messagesToRemove (1 / 2) (int (length tenMessages) - 2)) = 4"
    by (simp add: tenMessages_def messagesToRemove_examples)
  have h': "(21::rat) > 13" "2 < length longHistory" "(0::rat) \<le> 56 / 100"
    by (simp_all add: longHistory_def)
  have r': "nat (messagesToRemove (56 / 100) (int (length longHistory) - 2)) = 16"
    by code_simp
  show ?thesis
    using h r h' r'
      applyTruncation_index_shift [OF h, of notices length 7 modifiedLast 5]
      applyTruncation_index_shift [OF h, of notices length 7 modifiedLast 9]
      applyTruncation_index_shift [OF h', of notices length 7 modifiedLate 4]
      applyTruncation_index_shift [OF h', of notices length 7 modifiedLate 6]
      applyTruncation_index_shift [OF h', of notices length 7 modifiedLate 20]
    by (simp add: modifiedLast_def modifiedLate_def obj_get_def)
qed

section \<open>Properties of the manager\<close>

text \<open>
  Claim C8 (budget underflow): when the allowed size less the reserved response tokens
  less the token buffer is not positive, \<open>processHistoryForApi\<close> returns the raw history,
  the live edit log, the token estimate of the raw history and \<open>wasTruncated = false\<close>;
  the manager, and with it the list of persisted logs, is unchanged.
\<close>

theorem processHistoryForApi_budget_underflow:
  assumes "snd (getContextWindowInfo (currentModelInfo cm))
             - reservedResponseTokens cm - tokenBuffer cm \<le> 0"
  shows "processHistoryForApi fr optTime truncTime cm raw P =
           (\<lparr>processedHistory = raw,
             updatedModifications = contextHistoryUpdates cm,
             tokensUsed = calculateTokens (tokenizer cm) raw,
             wasTruncated = False\<rparr>, cm)"
  using assms by (simp add: processHistoryForApi_def Let_def)

theorem processHistoryForApi_budget_underflow_witness:
  "snd (getContextWindowInfo (currentModelInfo (newManager (Some \<lparr>contextWindow = Some 500\<rparr>))))
     - reservedResponseTokens (newManager (Some \<lparr>contextWindow = Some 500\<rparr>))
     - tokenBuffer (newManager (Some \<lparr>contextWindow = Some 500\<rparr>)) \<le> 0
   \<and> processHistoryForApi notices 5 7 (newManager (Some \<lparr>contextWindow = Some 500\<rparr>))
        threeMessages 100000
      = (\<lparr>processedHistory = threeMessages,
          updatedModifications = [],
          tokensUsed = 48,
          wasTruncated = False\<rparr>, newManager (Some \<lparr>contextWindow = Some 500\<rparr>))"
proof -
  have under:
    "snd (getContextWindowInfo (currentModelInfo (newManager (Some \<lparr>contextWindow = Some 500\<rparr>))))
     - reservedResponseTokens (newManager (Some \<lparr>contextWindow = Some 500\<rparr>))
     - tokenBuffer (newManager (Some \<lparr>contextWindow = Some 500\<rparr>)) \<le> 0"
    by (simp add: newManager_def getContextWindowInfo_def Let_def)
  have tokens: "calculateTokens length threeMessages = 48"
    by (simp add: calculateTokens_def threeMessages_def createMessage_def)
  show ?thesis
    using under tokens
      processHistoryForApi_budget_underflow [OF under, of notices 5 7 threeMessages 100000]
    by (simp add: newManager_def)
qed

section \<open>Properties of the elider\<close>

lemma editsAt_obj_set:
  "editsAt (obj_set i e L) i' b =
     (if i' = i then (case obj_get (blocks e) b of None \<Rightarrow> [] | Some us \<Rightarrow> us)
      else editsAt L i' b)"
  by (simp add: editsAt_def obj_get_obj_set)

lemma isElision_elisionUpdate: "isElision ts (elisionUpdate fr ts raw path occ us)"
  by (simp add: isElision_def elisionUpdate_def Let_def split: option.splits prod.splits)

lemma editsAt_elideOccurrence:
  assumes "messageIndex occ < length raw"
  shows "editsAt (elideOccurrence fr ts raw path occ L) i b =
           editsAt L i b @
             (if i = messageIndex occ \<and> b = blockIndex occ
              then [elisionUpdate fr ts raw path occ (editsAt L i b)] else [])"
  using assms
  by (auto simp: elideOccurrence_def Let_def editsAt_obj_set obj_get_obj_set editsAt_def
      obj_get_Nil split: option.splits)

lemma appended_refl: "appended ts L L []"
  by (simp add: appended_def targets_def)

lemma appended_trans:
  assumes "appended ts L L' os" and "appended ts L' L'' os'"
  shows "appended ts L L'' (os @ os')"
  unfolding appended_def
proof (intro allI)
  fix i b
  from assms(1) obtain n1 where n1: "editsAt L' i b = editsAt L i b @ n1"
      "length n1 = length (targets i b os)" "\<forall>u \<in> set n1. isElision ts u"
    unfolding appended_def by blast
  from assms(2) obtain n2 where n2: "editsAt L'' i b = editsAt L' i b @ n2"
      "length n2 = length (targets i b os')" "\<forall>u \<in> set n2. isElision ts u"
    unfolding appended_def by blast
  show "\<exists>new. editsAt L'' i b = editsAt L i b @ new
                 \<and> length new = length (targets i b (os @ os'))
                 \<and> (\<forall>u \<in> set new. isElision ts u)"
    using n1 n2 by (intro exI [of _ "n1 @ n2"]) (auto simp: targets_def)
qed

lemma appended_elideOccurrence:
  assumes "messageIndex occ < length raw"
  shows "appended ts L (elideOccurrence fr ts raw path occ L) [occ]"
  unfolding appended_def
  by (auto simp: editsAt_elideOccurrence [OF assms] targets_def isElision_elisionUpdate)

lemma appended_fold_occurrences:
  assumes "\<forall>occ \<in> set os. messageIndex occ < length raw"
  shows "appended ts L (fold (elideOccurrence fr ts raw path) os L) os"
  using assms
proof (induction os arbitrary: L)
  case Nil
  then show ?case by (simp add: appended_refl)
next
  case (Cons occ os)
  have "appended ts L (elideOccurrence fr ts raw path occ L) [occ]"
    using Cons.prems by (intro appended_elideOccurrence) simp
  moreover have "appended ts (elideOccurrence fr ts raw path occ L)
      (fold (elideOccurrence fr ts raw path) os (elideOccurrence fr ts raw path occ L)) os"
    using Cons.prems by (intro Cons.IH) simp
  ultimately show ?case
    using appended_trans by fastforce
qed

lemma appended_elidePath:
  assumes "\<forall>occ \<in> set occs. messageIndex occ < length raw"
  shows "appended ts L (elidePath fr ts raw (path, occs) L) (butlast occs)"
proof (cases "length occs \<le> 1")
  case True
  then have "butlast occs = []"
    by (cases occs) auto
  with True show ?thesis by (simp add: elidePath_def appended_refl)
next
  case False
  have "\<forall>occ \<in> set (butlast occs). messageIndex occ < length raw"
    using assms by (auto dest: in_set_butlastD)
  with False show ?thesis
    by (simp add: elidePath_def appended_fold_occurrences)
qed

lemma appended_fold_paths:
  assumes "validReads (length raw) fileReads"
  shows "appended ts L (fold (elidePath fr ts raw) fileReads L)
           (concat (map (\<lambda>(path, occurrences). butlast occurrences) fileReads))"
  using assms
proof (induction fileReads arbitrary: L)
  case Nil
  then show ?case by (simp add: appended_refl)
next
  case (Cons entry fileReads)
  obtain path occs where entry: "entry = (path, occs)" by (cases entry)
  have v: "\<forall>occ \<in> set occs. messageIndex occ < length raw" "validReads (length raw) fileReads"
    using Cons.prems by (auto simp: validReads_def entry)
  have "appended ts L (elidePath fr ts raw (path, occs) L) (butlast occs)"
    by (rule appended_elidePath [OF v(1)])
  moreover have "appended ts (elidePath fr ts raw (path, occs) L)
      (fold (elidePath fr ts raw) fileReads (elidePath fr ts raw (path, occs) L))
      (concat (map (\<lambda>(path, occurrences). butlast occurrences) fileReads))"
    by (rule Cons.IH [OF v(2)])
  ultimately show ?case
    using appended_trans by (fastforce simp: entry)
qed

lemma set_map_set: "set (map_set k v kvs) \<subseteq> insert (k, v) (set kvs)"
  by (induction kvs) (auto split: if_splits)

lemma validReads_pushOccurrence:
  assumes "validReads n fileReads" and "messageIndex occ < n"
  shows "validReads n (pushOccurrence occ fileReads)"
proof -
  define occurrences where
    "occurrences = (case map_of fileReads (filePath occ) of None \<Rightarrow> [] | Some os \<Rightarrow> os)"
  have "\<forall>x \<in> set occurrences. messageIndex x < n"
  proof (cases "map_of fileReads (filePath occ)")
    case None
    then show ?thesis by (simp add: occurrences_def)
  next
    case (Some os)
    then have "(filePath occ, os) \<in> set fileReads"
      by (rule map_of_SomeD)
    with assms(1) have "\<forall>x \<in> set os. messageIndex x < n"
      unfolding validReads_def by blast
    with Some show ?thesis by (simp add: occurrences_def)
  qed
  then have "\<forall>x \<in> set (occurrences @ [occ]). messageIndex x < n"
    using assms(2) by auto
  moreover have "set (pushOccurrence occ fileReads)
      \<subseteq> insert (filePath occ, occurrences @ [occ]) (set fileReads)"
    unfolding pushOccurrence_def Let_def occurrences_def by (rule set_map_set)
  ultimately show ?thesis
    using assms(1) unfolding validReads_def by blast
qed

lemma validReads_fold_mentions:
  assumes "validReads n fileReads" and "m < n"
  shows "validReads n
           (fold (\<lambda>(path, full). pushOccurrence
                    \<lparr>messageIndex = m, blockIndex = b, filePath = path, fullMatch = Some full\<rparr>)
              ms fileReads)"
  using assms
  by (induction ms arbitrary: fileReads) (auto simp: validReads_pushOccurrence split: prod.splits)

lemma validReads_scanBlock:
  assumes "validReads n fileReads" and "m < n"
  shows "validReads n (scanBlock m cont b fileReads)"
proof -
  define fileReads1 where "fileReads1 =
            (if b = 0 then
               (case cont ! b of
                  TextBlock t \<Rightarrow>
                    (case matchToolHeader t of
                       Some path \<Rightarrow>
                         if length cont > b + 1 then
                           (case cont ! (b + 1) of
                              TextBlock _ \<Rightarrow>
                                pushOccurrence
                                  \<lparr>messageIndex = m, blockIndex = b + 1,
                                   filePath = path, fullMatch = None\<rparr> fileReads
                            | _ \<Rightarrow> fileReads)
                         else fileReads
                     | None \<Rightarrow> fileReads)
                | _ \<Rightarrow> fileReads)
             else fileReads)"
  have v1: "validReads n fileReads1"
    unfolding fileReads1_def using assms
    by (simp add: validReads_pushOccurrence split: block.splits option.splits)
  have "scanBlock m cont b fileReads =
      (case cont ! b of
           TextBlock t \<Rightarrow>
             fold (\<lambda>(path, full).
                     pushOccurrence
                       \<lparr>messageIndex = m, blockIndex = b,
                        filePath = path, fullMatch = Some full\<rparr>)
                  (findMentions t) fileReads1
         | _ \<Rightarrow> fileReads1)"
    unfolding scanBlock_def fileReads1_def Let_def by (rule refl)
  then show ?thesis
    using v1 assms(2) by (simp add: validReads_fold_mentions split: block.splits)
qed

lemma validReads_fold_scanBlock:
  assumes "validReads n fileReads" and "m < n"
  shows "validReads n (fold (scanBlock m cont) bs fileReads)"
  using assms
  by (induction bs arbitrary: fileReads) (auto simp: validReads_scanBlock)

lemma validReads_scanMessage:
  assumes "validReads n fileReads" and "m < n"
  shows "validReads n (scanMessage history m fileReads)"
  using assms unfolding scanMessage_def Let_def
  by (auto intro!: validReads_fold_scanBlock split: content.splits)

lemma validReads_fold_scanMessage:
  assumes "validReads n fileReads" and "\<forall>m \<in> set ms. m < n"
  shows "validReads n (fold (scanMessage history) ms fileReads)"
  using assms
  by (induction ms arbitrary: fileReads) (auto simp: validReads_scanMessage)

lemma validReads_findDuplicateFileReads:
  "validReads (length raw) (findDuplicateFileReads raw)"
  unfolding findDuplicateFileReads_def
  by (rule validReads_fold_scanMessage) (auto simp: validReads_def)

lemma appended_applyOptimizations:
  "appended ts L (applyOptimizations fr ts raw L) (elidedOccurrences raw)"
  unfolding applyOptimizations_def elidedOccurrences_def
  by (rule appended_fold_paths [OF validReads_findDuplicateFileReads])

text \<open>
  When a call keeps an update of its elider, the log it leaves differs from the log it
  started from. Without truncation the log is the elider's, which is longer at the block
  of every elided occurrence. With truncation an entry of the first two messages keeps
  its key and stays longer, and an entry after the removed range keeps its updates under
  the shifted key, among them one stamped with a clock reading that the log did not hold.
\<close>

lemma timestampsOf_editsAt:
  assumes "u \<in> set (editsAt L i b)"
  shows "fst u \<in> set (timestampsOf L)"
proof -
  from assms obtain e where e: "obj_get L i = Some e"
    by (cases "obj_get L i") (auto simp: editsAt_def)
  with assms obtain us where us: "obj_get (blocks e) b = Some us" "u \<in> set us"
    by (cases "obj_get (blocks e) b") (auto simp: editsAt_def)
  have "(i, e) \<in> set L" "(b, us) \<in> set (blocks e)"
    using e us(1) by (auto simp: obj_get_def dest: map_of_SomeD)
  with us(2) show ?thesis
    unfolding timestampsOf_def by force
qed

lemma editsAt_addTruncationNotice_append:
  "\<exists>extra. editsAt (addTruncationNotice ts H L) i b = editsAt L i b @ extra"
proof (cases "i = 1")
  case False
  then have "obj_get (addTruncationNotice ts H L) i = obj_get L i"
    by (rule obj_get_addTruncationNotice)
  then show ?thesis by (simp add: editsAt_def)
next
  case True
  show ?thesis
    unfolding True
    by (cases "obj_get L 1"; cases "b = 0")
       (auto simp: addTruncationNotice_def Let_def editsAt_def obj_get_obj_set obj_get_Nil
          obj_get_Cons split: option.splits)
qed

lemma applyContextHistoryUpdates_length:
  "length (applyContextHistoryUpdates fr L raw) = length raw"
  unfolding applyContextHistoryUpdates_def
  by (rule fold_update_length [of "applyMessageUpdates fr L" "messageStep fr L",
        OF applyMessageUpdates_step])

lemma applyTruncation_log_changed:
  assumes surv: "occ \<in> set (elidedOccurrences raw)"
      "P \<le> maxTokens \<or> length H \<le> 2 \<or> messageIndex occ < 2
       \<or> (1 + messagesToRemove phi (int (length H) - 2) < int (messageIndex occ)
           \<and> optTime \<notin> set (timestampsOf L))"
    and app: "appended optTime L L_opt (elidedOccurrences raw)"
  shows "fst (snd (applyTruncation fr tok phi truncTime H L_opt maxTokens P)) \<noteq> L"
proof -
  define j where "j = messageIndex occ"
  define b where "b = blockIndex occ"
  define F where "F = fst (snd (applyTruncation fr tok phi truncTime H L_opt maxTokens P))"
  define m where "m = messagesToRemove phi (int (length H) - 2)"
  from app obtain new where new: "editsAt L_opt j b = editsAt L j b @ new"
      "length new = length (targets j b (elidedOccurrences raw))"
      "\<forall>u \<in> set new. isElision optTime u"
    unfolding appended_def by blast
  have "occ \<in> set (targets j b (elidedOccurrences raw))"
    using surv(1) by (simp add: targets_def j_def b_def)
  then have "targets j b (elidedOccurrences raw) \<noteq> []" by auto
  with new(2) have nonempty: "new \<noteq> []" by auto
  have differs: "L_opt \<noteq> L"
    using new(1) nonempty by auto
  consider (keep) "P \<le> maxTokens \<or> length H \<le> 2"
    | (low) "maxTokens < P" "2 < length H" "j < 2"
    | (high) "maxTokens < P" "2 < length H" "2 \<le> j" "1 + m < int j"
        "optTime \<notin> set (timestampsOf L)"
    using surv(2) unfolding j_def m_def by linarith
  then have "F \<noteq> L"
  proof cases
    case keep
    then have "F = L_opt"
      unfolding F_def by (auto simp: applyTruncation_def Let_def)
    with differs show ?thesis by simp
  next
    case low
    have F: "F = adjustModificationIndices (1 + m) m (addTruncationNotice truncTime H L_opt)"
      unfolding F_def m_def using low(1,2) by (simp add: applyTruncation_def Let_def)
    have "obj_get F j = obj_get (addTruncationNotice truncTime H L_opt) j"
      unfolding F using low(3) by (simp add: adjustModificationIndices_shift)
    then have "editsAt F j b = editsAt (addTruncationNotice truncTime H L_opt) j b"
      by (simp add: editsAt_def)
    with editsAt_addTruncationNotice_append [of truncTime H L_opt j b]
    obtain extra where "editsAt F j b = editsAt L j b @ new @ extra"
      using new(1) by auto
    with nonempty show ?thesis by auto
  next
    case high
    have F: "F = adjustModificationIndices (1 + m) m (addTruncationNotice truncTime H L_opt)"
      unfolding F_def m_def using high(1,2) by (simp add: applyTruncation_def Let_def)
    define k where "k = nat (int j - m)"
    have k: "2 \<le> k" "int k + m = int j"
      using high(3,4) by (simp_all add: k_def)
    have "obj_get F k = obj_get (addTruncationNotice truncTime H L_opt) j"
      unfolding F using k high(3) by (simp add: adjustModificationIndices_shift)
    also have "\<dots> = obj_get L_opt j"
      using high(3) by (intro obj_get_addTruncationNotice) simp
    finally have "editsAt F k b = editsAt L_opt j b"
      by (simp add: editsAt_def)
    moreover have "last new \<in> set (editsAt L_opt j b)" "fst (last new) = optTime"
      using new(1,3) nonempty by (auto simp: isElision_def)
    ultimately have "optTime \<in> set (timestampsOf F)"
      using timestampsOf_editsAt [of "last new" F k b] by simp
    with high(5) show ?thesis by auto
  qed
  then show ?thesis by (simp add: F_def)
qed

text \<open>
  A call with a positive budget that keeps an update of its elider changes the log,
  hands the new log to the persistence port, and leaves the model and the reserves alone.
\<close>

lemma processHistoryForApi_changes:
  fixes fr optTime truncTime cm raw P
  defines "cm' \<equiv> snd (processHistoryForApi fr optTime truncTime cm raw P)"
  assumes budget: "0 < snd (getContextWindowInfo (currentModelInfo cm))
                       - reservedResponseTokens cm - tokenBuffer cm"
    and surv: "elisionSurvives optTime cm raw P"
  shows "contextHistoryUpdates cm' \<noteq> contextHistoryUpdates cm"
    and "persisted cm' = persisted cm @ [contextHistoryUpdates cm']"
    and "currentModelInfo cm' = currentModelInfo cm"
    and "reservedResponseTokens cm' = reservedResponseTokens cm"
    and "tokenBuffer cm' = tokenBuffer cm"
    and "truncationPercentage cm' = truncationPercentage cm"
proof -
  define L where "L = contextHistoryUpdates cm"
  define L_opt where "L_opt = applyOptimizations fr optTime raw L"
  define H where "H = applyModificationsToHistory fr (applyContextHistoryUpdates fr L raw) L_opt"
  define B where "B = snd (getContextWindowInfo (currentModelInfo cm))
                       - reservedResponseTokens cm - tokenBuffer cm"
  define F where "F = fst (snd (applyTruncation fr (tokenizer cm) (truncationPercentage cm)
                         truncTime H L_opt B P))"
  have len: "length H = length raw"
    unfolding H_def by (simp add: applyModificationsToHistory_length applyContextHistoryUpdates_length)
  from surv obtain occ where occ: "occ \<in> set (elidedOccurrences raw)"
      "P \<le> B \<or> length H \<le> 2 \<or> messageIndex occ < 2
       \<or> (1 + messagesToRemove (truncationPercentage cm) (int (length H) - 2)
              < int (messageIndex occ)
           \<and> optTime \<notin> set (timestampsOf L))"
    unfolding elisionSurvives_def Let_def B_def L_def len by blast
  have "appended optTime L L_opt (elidedOccurrences raw)"
    unfolding L_opt_def by (rule appended_applyOptimizations)
  from applyTruncation_log_changed [OF occ this]
  have FL: "F \<noteq> L" unfolding F_def .
  have cm': "cm' = saveContextHistory (cm\<lparr>contextHistoryUpdates := F\<rparr>)"
    using budget FL
    unfolding cm'_def processHistoryForApi_def Let_def F_def H_def L_opt_def L_def B_def
    by (auto split: prod.splits)
  show "contextHistoryUpdates cm' \<noteq> contextHistoryUpdates cm"
    using FL by (simp add: cm' saveContextHistory_def L_def)
  show "persisted cm' = persisted cm @ [contextHistoryUpdates cm']"
    "currentModelInfo cm' = currentModelInfo cm"
    "reservedResponseTokens cm' = reservedResponseTokens cm"
    "tokenBuffer cm' = tokenBuffer cm"
    "truncationPercentage cm' = truncationPercentage cm"
    by (simp_all add: cm' saveContextHistory_def)
qed

text \<open>
  Claim C10 (elision is not idempotent on the edit log), amended: every call of
  \<open>applyOptimizations\<close>, whatever the log it starts from, appends to every block one
  new \<open>replace_content\<close> update stamped with the call's clock reading per occurrence
  that is not the last of its path and has that block as its content block; and when
  some path has at least two occurrences, the budget is positive and each of two
  consecutive calls of \<open>processHistoryForApi\<close> on the same raw history keeps an update
  of its elider (\<open>elisionSurvives\<close>: for some elided occurrence the call does not
  truncate, or the occurrence is in one of the first two messages, or it is after the
  removed range and the reading of the elider's clock is not yet in the log), both calls
  change the edit log and both hand it to the persistence port.
\<close>

theorem applyOptimizations_appends:
  assumes dup: "(path, occs) \<in> set (findDuplicateFileReads raw)" "2 \<le> length occs"
    and budget: "0 < snd (getContextWindowInfo (currentModelInfo cm))
                       - reservedResponseTokens cm - tokenBuffer cm"
    and first: "elisionSurvives opt1 cm raw P1"
    and second: "elisionSurvives opt2 (snd (processHistoryForApi fr opt1 trunc1 cm raw P1)) raw P2"
  shows "(\<exists>new. editsAt (applyOptimizations fr ts raw L) i b = editsAt L i b @ new
            \<and> length new = length (targets i b (elidedOccurrences raw))
            \<and> (\<forall>u \<in> set new. isElision ts u))
       \<and> set (butlast occs) \<subseteq> set (elidedOccurrences raw)
       \<and> (let cm1 = snd (processHistoryForApi fr opt1 trunc1 cm raw P1);
               cm2 = snd (processHistoryForApi fr opt2 trunc2 cm1 raw P2)
          in contextHistoryUpdates cm1 \<noteq> contextHistoryUpdates cm
             \<and> persisted cm1 = persisted cm @ [contextHistoryUpdates cm1]
             \<and> contextHistoryUpdates cm2 \<noteq> contextHistoryUpdates cm1
             \<and> persisted cm2 = persisted cm1 @ [contextHistoryUpdates cm2])"
proof (intro conjI)
  show "\<exists>new. editsAt (applyOptimizations fr ts raw L) i b = editsAt L i b @ new
            \<and> length new = length (targets i b (elidedOccurrences raw))
            \<and> (\<forall>u \<in> set new. isElision ts u)"
    using appended_applyOptimizations [of ts L fr raw] unfolding appended_def by blast
next
  show "set (butlast occs) \<subseteq> set (elidedOccurrences raw)"
    using dup(1) unfolding elidedOccurrences_def by force
next
  define cm1 where "cm1 = snd (processHistoryForApi fr opt1 trunc1 cm raw P1)"
  define cm2 where "cm2 = snd (processHistoryForApi fr opt2 trunc2 cm1 raw P2)"
  note one = processHistoryForApi_changes [OF budget first, of fr trunc1, folded cm1_def]
  have budget1: "0 < snd (getContextWindowInfo (currentModelInfo cm1))
                       - reservedResponseTokens cm1 - tokenBuffer cm1"
    using budget by (simp add: one)
  have second1: "elisionSurvives opt2 cm1 raw P2"
    using second by (simp add: cm1_def)
  note two = processHistoryForApi_changes [OF budget1 second1, of fr trunc2, folded cm2_def]
  show "let cm1 = snd (processHistoryForApi fr opt1 trunc1 cm raw P1);
               cm2 = snd (processHistoryForApi fr opt2 trunc2 cm1 raw P2)
          in contextHistoryUpdates cm1 \<noteq> contextHistoryUpdates cm
             \<and> persisted cm1 = persisted cm @ [contextHistoryUpdates cm1]
             \<and> contextHistoryUpdates cm2 \<noteq> contextHistoryUpdates cm1
             \<and> persisted cm2 = persisted cm1 @ [contextHistoryUpdates cm2]"
    unfolding Let_def cm1_def [symmetric] cm2_def [symmetric]
    using one(1,2) two(1,2) by simp
qed

theorem applyOptimizations_appends_witness:
  "(''a.ts'',
     [\<lparr>messageIndex = 6, blockIndex = 0, filePath = ''a.ts'',
       fullMatch = Some (mention ''a.ts'' ''X'')\<rparr>,
      \<lparr>messageIndex = 8, blockIndex = 0, filePath = ''a.ts'',
       fullMatch = Some (mention ''a.ts'' ''X'')\<rparr>])
     \<in> set (findDuplicateFileReads lateMentionHistory)
   \<and> 0 < snd (getContextWindowInfo (currentModelInfo (newManager None)))
            - reservedResponseTokens (newManager None) - tokenBuffer (newManager None)
   \<and> elisionSurvives 5 (newManager None) lateMentionHistory 100000
   \<and> elisionSurvives 15
        (snd (processHistoryForApi notices 5 7 (newManager None) lateMentionHistory 100000))
        lateMentionHistory 100000
   \<and> editsAt (applyOptimizations notices 5 lateMentionHistory []) 6 0
       = [(5, replace_content, Some (mention ''a.ts'' ''[dup]''),
           Some \<lparr>originalPath = Some ''a.ts'', replacedMention = True\<rparr>)]
   \<and> length (targets 6 0 (elidedOccurrences lateMentionHistory)) = 1
   \<and> snd (getContextWindowInfo (currentModelInfo (newManager None)))
         - reservedResponseTokens (newManager None) - tokenBuffer (newManager None) < 100000
   \<and> contextHistoryUpdates
        (snd (processHistoryForApi notices 5 7 (newManager None) lateMentionHistory 100000))
       \<noteq> contextHistoryUpdates (newManager None)
   \<and> contextHistoryUpdates
        (snd (processHistoryForApi notices 15 17
               (snd (processHistoryForApi notices 5 7 (newManager None)
                      lateMentionHistory 100000))
               lateMentionHistory 100000))
       \<noteq> contextHistoryUpdates
            (snd (processHistoryForApi notices 5 7 (newManager None)
                   lateMentionHistory 100000))
   \<and> length (persisted
        (snd (processHistoryForApi notices 15 17
               (snd (processHistoryForApi notices 5 7 (newManager None)
                      lateMentionHistory 100000))
               lateMentionHistory 100000))) = 2
   \<and> elisionSurvives 5 (newManager None) mentionHistory 100000
   \<and> elisionSurvives 15
        (snd (processHistoryForApi notices 5 7 (newManager None) mentionHistory 100000))
        mentionHistory 100000
   \<and> contextHistoryUpdates
        (snd (processHistoryForApi notices 15 17
               (snd (processHistoryForApi notices 5 7 (newManager None)
                      mentionHistory 100000))
               mentionHistory 100000))
       \<noteq> contextHistoryUpdates
            (snd (processHistoryForApi notices 5 7 (newManager None) mentionHistory 100000))
   \<and> length (persisted
        (snd (processHistoryForApi notices 15 17
               (snd (processHistoryForApi notices 5 7 (newManager None)
                      mentionHistory 100000))
               mentionHistory 100000))) = 2"
proof -
  have dup: "(''a.ts'',
     [\<lparr>messageIndex = 6, blockIndex = 0, filePath = ''a.ts'',
       fullMatch = Some (mention ''a.ts'' ''X'')\<rparr>,
      \<lparr>messageIndex = 8, blockIndex = 0, filePath = ''a.ts'',
       fullMatch = Some (mention ''a.ts'' ''X'')\<rparr>])
     \<in> set (findDuplicateFileReads lateMentionHistory)"
    by code_simp
  have dup': "(''a.ts'',
     [\<lparr>messageIndex = 0, blockIndex = 0, filePath = ''a.ts'',
       fullMatch = Some (mention ''a.ts'' ''X'')\<rparr>,
      \<lparr>messageIndex = 2, blockIndex = 0, filePath = ''a.ts'',
       fullMatch = Some (mention ''a.ts'' ''X'')\<rparr>]) \<in> set (findDuplicateFileReads mentionHistory)"
    by code_simp
  have two: "2 \<le> length
     [\<lparr>messageIndex = 6, blockIndex = 0, filePath = ''a.ts'',
       fullMatch = Some (mention ''a.ts'' ''X'')\<rparr>,
      \<lparr>messageIndex = 8, blockIndex = 0, filePath = ''a.ts'',
       fullMatch = Some (mention ''a.ts'' ''X'')\<rparr>]"
    by simp
  have two': "2 \<le> length
     [\<lparr>messageIndex = 0, blockIndex = 0, filePath = ''a.ts'',
       fullMatch = Some (mention ''a.ts'' ''X'')\<rparr>,
      \<lparr>messageIndex = 2, blockIndex = 0, filePath = ''a.ts'',
       fullMatch = Some (mention ''a.ts'' ''X'')\<rparr>]"
    by simp
  have budget: "0 < snd (getContextWindowInfo (currentModelInfo (newManager None)))
            - reservedResponseTokens (newManager None) - tokenBuffer (newManager None)"
    by (simp add: newManager_def getContextWindowInfo_def Let_def)
  have first: "elisionSurvives 5 (newManager None) lateMentionHistory 100000"
    by code_simp
  have second: "elisionSurvives 15
        (snd (processHistoryForApi notices 5 7 (newManager None) lateMentionHistory 100000))
        lateMentionHistory 100000"
    by code_simp
  have first': "elisionSurvives 5 (newManager None) mentionHistory 100000"
    by code_simp
  have second': "elisionSurvives 15
        (snd (processHistoryForApi notices 5 7 (newManager None) mentionHistory 100000))
        mentionHistory 100000"
    by code_simp
  have edits: "editsAt (applyOptimizations notices 5 lateMentionHistory []) 6 0
       = [(5, replace_content, Some (mention ''a.ts'' ''[dup]''),
           Some \<lparr>originalPath = Some ''a.ts'', replacedMention = True\<rparr>)]"
    by code_simp
  have n: "length (targets 6 0 (elidedOccurrences lateMentionHistory)) = 1"
    by code_simp
  have truncated: "snd (getContextWindowInfo (currentModelInfo (newManager None)))
         - reservedResponseTokens (newManager None) - tokenBuffer (newManager None) < 100000"
    by (simp add: newManager_def getContextWindowInfo_def Let_def)
  have p0: "persisted (newManager None) = []"
    by (simp add: newManager_def)
  show ?thesis
    using dup budget first second first' second' edits n truncated p0
      applyOptimizations_appends [OF dup two budget first second, of 5 "[]" 6 0 17]
      applyOptimizations_appends [OF dup' two' budget first' second', of 5 "[]" 0 0 17]
    unfolding Let_def by simp
qed

text \<open>
  Without the restriction the second call can leave the log alone: when both calls
  truncate and the only elided occurrence lies in the removed range, the second call
  rebuilds the log of the first, and nothing is persisted.
\<close>

theorem second_call_unchanged_counterexample:
  "(''a.ts'',
     [\<lparr>messageIndex = 2, blockIndex = 0, filePath = ''a.ts'',
       fullMatch = Some (mention ''a.ts'' ''X'')\<rparr>,
      \<lparr>messageIndex = 4, blockIndex = 0, filePath = ''a.ts'',
       fullMatch = Some (mention ''a.ts'' ''X'')\<rparr>])
     \<in> set (findDuplicateFileReads evictedMentionHistory)
   \<and> persisted (snd (processHistoryForApi notices 5 7 (newManager None)
                     evictedMentionHistory 100000))
       = [[(1, \<lparr>editType = Assistant,
                blocks = [(0, [(7, add_truncation_notice, None, None)])]\<rparr>)]]
   \<and> contextHistoryUpdates
        (snd (processHistoryForApi notices 15 17
               (snd (processHistoryForApi notices 5 7 (newManager None)
                      evictedMentionHistory 100000))
               evictedMentionHistory 100000))
       = contextHistoryUpdates
           (snd (processHistoryForApi notices 5 7 (newManager None)
                  evictedMentionHistory 100000))
   \<and> persisted
        (snd (processHistoryForApi notices 15 17
               (snd (processHistoryForApi notices 5 7 (newManager None)
                      evictedMentionHistory 100000))
               evictedMentionHistory 100000))
       = persisted (snd (processHistoryForApi notices 5 7 (newManager None)
                          evictedMentionHistory 100000))"
  by code_simp

text \<open>
  The restriction is not met there, and the reading of the clock matters: with the
  elided occurrence after the removed range, a second call whose elider reads the clock
  at the instant of the first rebuilds the same log.
\<close>

lemma elisionSurvives_evicted:
  "\<not> elisionSurvives 5 (newManager None) evictedMentionHistory 100000"
  by code_simp

lemma same_instant_second_call_unchanged:
  "\<not> elisionSurvives 5
       (snd (processHistoryForApi notices 5 7 (newManager None) lateMentionHistory 100000))
       lateMentionHistory 100000"
  "contextHistoryUpdates
        (snd (processHistoryForApi notices 5 17
               (snd (processHistoryForApi notices 5 7 (newManager None)
                      lateMentionHistory 100000))
               lateMentionHistory 100000))
       = contextHistoryUpdates
           (snd (processHistoryForApi notices 5 7 (newManager None)
                  lateMentionHistory 100000))"
  by code_simp+

text \<open>
  With an empty live log and no truncation, a block that is the content block of no
  occurrence but the last of its path comes out of \<open>processHistoryForApi\<close> as it went
  in. This is how the last occurrence of a path is kept: no update is recorded for it.
\<close>

lemma applyContextHistoryUpdates_empty: "applyContextHistoryUpdates fr [] raw = raw"
  by (simp add: applyContextHistoryUpdates_def obj_keys_def)

lemma untargeted_block_unmodified:
  assumes untargeted: "targets i b (elidedOccurrences raw) = []"
    and empty: "contextHistoryUpdates cm = []"
    and budget: "0 < snd (getContextWindowInfo (currentModelInfo cm))
                       - reservedResponseTokens cm - tokenBuffer cm"
    and P: "P \<le> snd (getContextWindowInfo (currentModelInfo cm))
                       - reservedResponseTokens cm - tokenBuffer cm"
    and i: "i < length raw" and cont: "content (raw ! i) = BlockContent cont"
    and b: "b < length cont"
  shows "\<exists>cont'. content (processedHistory
                    (fst (processHistoryForApi fr optTime truncTime cm raw P)) ! i)
                  = BlockContent cont'
           \<and> length cont' = length cont \<and> cont' ! b = cont ! b"
proof -
  define L where "L = applyOptimizations fr optTime raw []"
  have "appended optTime [] L (elidedOccurrences raw)"
    unfolding L_def by (rule appended_applyOptimizations)
  then obtain new where "editsAt L i b = editsAt [] i b @ new"
      "length new = length (targets i b (elidedOccurrences raw))"
    unfolding appended_def by blast
  then have none: "editsAt L i b = []"
    using untargeted by (simp add: editsAt_def obj_get_Nil)
  have "processedHistory (fst (processHistoryForApi fr optTime truncTime cm raw P))
      = applyModificationsToHistory fr raw L"
    using budget P empty
    by (simp add: processHistoryForApi_def Let_def applyTruncation_def L_def
        applyContextHistoryUpdates_empty)
  then show ?thesis
    using messageStep_untouched_block [OF none cont b, of fr]
    by (simp add: applyModificationsToHistory_nth [OF i])
qed

text \<open>
  Claim C4 (elision keeps last) at a history where the content block of a tool result
  for \<open>f.ts\<close> (message 2, block 1) holds the second and last mention of \<open>g.ts\<close>: the
  block is scanned twice, as the content of a tool result that is not the last one for
  \<open>f.ts\<close> and for its mention. The elider replaces the whole block by the notice, so
  the last occurrence of \<open>g.ts\<close> is not left unmodified, and no copy of that file's
  content remains in the prepared history.
\<close>

theorem elision_overwrites_last_occurrence:
  "findDuplicateFileReads overlapHistory =
     [(''g.ts'',
        [\<lparr>messageIndex = 0, blockIndex = 0, filePath = ''g.ts'',
          fullMatch = Some (mention ''g.ts'' ''Z'')\<rparr>,
         \<lparr>messageIndex = 2, blockIndex = 1, filePath = ''g.ts'',
          fullMatch = Some (mention ''g.ts'' ''Z'')\<rparr>]),
      (''f.ts'',
        [\<lparr>messageIndex = 2, blockIndex = 1, filePath = ''f.ts'', fullMatch = None\<rparr>,
         \<lparr>messageIndex = 4, blockIndex = 1, filePath = ''f.ts'', fullMatch = None\<rparr>])]
   \<and> processedHistory
        (fst (processHistoryForApi notices 5 7 (newManager None) overlapHistory 0))
       = [createMessage User (mention ''g.ts'' ''[dup]''),
          createMessage Assistant ''ok'',
          \<lparr>role = User,
           content = BlockContent [TextBlock (readFileHeader ''f.ts''), TextBlock ''[dup]'']\<rparr>,
          createMessage Assistant ''ok'',
          \<lparr>role = User,
           content = BlockContent [TextBlock (readFileHeader ''f.ts''), TextBlock ''CONTENT'']\<rparr>]"
  by code_simp

section \<open>Properties of the rollback\<close>

lemma filter_fold:
  fixes X :: "'a obj" and g :: "'a \<Rightarrow> 'b option"
  defines "f \<equiv> (\<lambda>k acc. case obj_get X k of
                            None \<Rightarrow> acc
                          | Some v \<Rightarrow> (case g v of None \<Rightarrow> acc | Some w \<Rightarrow> obj_set k w acc))"
  shows "obj_get (fold f ks acc) k =
           (if k \<in> set ks then
              (case obj_get X k of
                 None \<Rightarrow> obj_get acc k
               | Some v \<Rightarrow> (case g v of None \<Rightarrow> obj_get acc k | Some w \<Rightarrow> Some w))
            else obj_get acc k)"
proof (induction ks arbitrary: acc)
  case Nil
  then show ?case by simp
next
  case (Cons j ks)
  have "fold f (j # ks) acc = fold f ks (f j acc)" by simp
  moreover have "obj_get (f j acc) k =
      (if k = j then (case obj_get X k of
                 None \<Rightarrow> obj_get acc k
               | Some v \<Rightarrow> (case g v of None \<Rightarrow> obj_get acc k | Some w \<Rightarrow> Some w))
       else obj_get acc k)"
    by (simp add: f_def obj_get_obj_set split: option.splits)
  ultimately show ?case
    using Cons.IH [of "f j acc"] by (auto split: option.splits)
qed

lemma rollbackBlocks_get:
  "obj_get (rollbackBlocks t blks) b =
     (case obj_get blks b of
        None \<Rightarrow> None
      | Some us \<Rightarrow> if filter (\<lambda>u. fst u \<le> t) us = [] then None
                   else Some (filter (\<lambda>u. fst u \<le> t) us))"
proof -
  define g :: "ContextUpdate list \<Rightarrow> ContextUpdate list option"
    where "g = (\<lambda>us. if filter (\<lambda>u. fst u \<le> t) us = [] then None
                      else Some (filter (\<lambda>u. fst u \<le> t) us))"
  have "rollbackBlocks t blks =
      fold (\<lambda>k acc. case obj_get blks k of
                            None \<Rightarrow> acc
                          | Some v \<Rightarrow> (case g v of None \<Rightarrow> acc | Some w \<Rightarrow> obj_set k w acc))
        (obj_keys blks) []"
    unfolding rollbackBlocks_def g_def
    by (rule arg_cong [where f = "\<lambda>f. fold f (obj_keys blks) []"])
       (auto simp: fun_eq_iff Let_def split: option.splits)
  then show ?thesis
    by (auto simp: filter_fold obj_get_Nil g_def obj_get_None_iff split: option.splits
        dest: obj_get_Some_key)
qed

lemma rollbackModifications_get:
  "obj_get (rollbackModifications t L) i =
     (case obj_get L i of
        None \<Rightarrow> None
      | Some e \<Rightarrow> if rollbackBlocks t (blocks e) = [] then None
                  else Some \<lparr>editType = editType e, blocks = rollbackBlocks t (blocks e)\<rparr>)"
proof -
  define g :: "messageUpdates \<Rightarrow> messageUpdates option"
    where "g = (\<lambda>e. if rollbackBlocks t (blocks e) = [] then None
                  else Some \<lparr>editType = editType e, blocks = rollbackBlocks t (blocks e)\<rparr>)"
  have "rollbackModifications t L =
      fold (\<lambda>k acc. case obj_get L k of
                            None \<Rightarrow> acc
                          | Some v \<Rightarrow> (case g v of None \<Rightarrow> acc | Some w \<Rightarrow> obj_set k w acc))
        (obj_keys L) []"
    unfolding rollbackModifications_def g_def
    by (rule arg_cong [where f = "\<lambda>f. fold f (obj_keys L) []"])
       (auto simp: fun_eq_iff Let_def split: option.splits)
  then show ?thesis
    by (auto simp: filter_fold obj_get_Nil g_def obj_get_None_iff split: option.splits
        dest: obj_get_Some_key)
qed

lemma editsAt_rollback:
  "editsAt (rollbackModifications t L) i b = filter (\<lambda>u. fst u \<le> t) (editsAt L i b)"
  by (auto simp: editsAt_def rollbackModifications_get rollbackBlocks_get obj_empty_iff
      split: option.splits)

text \<open>
  Claim C7 (rollback): after \<open>truncateHistoryUpdatesAtTimestamp t\<close> the updates of every
  block are the earlier ones with a timestamp not greater than \<open>t\<close>, in their order; a
  message entry is absent exactly when none of its blocks keeps an update; in an entry
  that remains, with its \<open>editType\<close>, a block is absent exactly when it keeps no update;
  and the log is handed to the persistence port exactly when it differs from the
  starting log.
\<close>

theorem truncateHistoryUpdatesAtTimestamp_rollback:
  "(let L = contextHistoryUpdates cm;
        cm' = truncateHistoryUpdatesAtTimestamp t cm;
        L' = contextHistoryUpdates cm'
    in editsAt L' i b = filter (\<lambda>u. fst u \<le> t) (editsAt L i b)
       \<and> (obj_get L' i = None \<longleftrightarrow> (\<forall>b'. filter (\<lambda>u. fst u \<le> t) (editsAt L i b') = []))
       \<and> (\<forall>e'. obj_get L' i = Some e' \<longrightarrow>
             (\<exists>e. obj_get L i = Some e \<and> editType e' = editType e)
             \<and> (obj_get (blocks e') b = None \<longleftrightarrow> filter (\<lambda>u. fst u \<le> t) (editsAt L i b) = []))
       \<and> persisted cm' = (if L' \<noteq> L then persisted cm @ [L'] else persisted cm))"
proof -
  have L': "contextHistoryUpdates (truncateHistoryUpdatesAtTimestamp t cm)
      = rollbackModifications t (contextHistoryUpdates cm)"
    by (simp add: truncateHistoryUpdatesAtTimestamp_def saveContextHistory_def Let_def)
  have p: "persisted (truncateHistoryUpdatesAtTimestamp t cm)
      = (if rollbackModifications t (contextHistoryUpdates cm) \<noteq> contextHistoryUpdates cm
         then persisted cm @ [rollbackModifications t (contextHistoryUpdates cm)]
         else persisted cm)"
    by (simp add: truncateHistoryUpdatesAtTimestamp_def saveContextHistory_def Let_def)
  have none: "obj_get (rollbackModifications t (contextHistoryUpdates cm)) i = None
      \<longleftrightarrow> (\<forall>b'. filter (\<lambda>u. fst u \<le> t) (editsAt (contextHistoryUpdates cm) i b') = [])"
    by (auto simp: editsAt_def rollbackModifications_get rollbackBlocks_get obj_empty_iff
      split: option.splits if_splits)
  have some: "\<forall>e'. obj_get (rollbackModifications t (contextHistoryUpdates cm)) i = Some e' \<longrightarrow>
             (\<exists>e. obj_get (contextHistoryUpdates cm) i = Some e \<and> editType e' = editType e)
             \<and> (obj_get (blocks e') b = None
                \<longleftrightarrow> filter (\<lambda>u. fst u \<le> t) (editsAt (contextHistoryUpdates cm) i b) = [])"
    by (auto simp: editsAt_def rollbackModifications_get rollbackBlocks_get
      split: option.splits if_splits)
  show ?thesis
    unfolding Let_def L' p using none some by (simp add: editsAt_rollback)
qed


theorem truncateHistoryUpdatesAtTimestamp_rollback_witness:
  "contextHistoryUpdates
     (truncateHistoryUpdatesAtTimestamp 200 (newManager None\<lparr>contextHistoryUpdates := rollbackLog\<rparr>))
     = [(0, \<lparr>editType = User,
             blocks = [(0, [(100, replace_content, Some ''Update 1'', None)])]\<rparr>),
        (1, \<lparr>editType = Assistant,
             blocks = [(0, [(200, replace_content, Some ''Update 2'', None)])]\<rparr>)]
   \<and> editsAt (contextHistoryUpdates
        (truncateHistoryUpdatesAtTimestamp 200 (newManager None\<lparr>contextHistoryUpdates := rollbackLog\<rparr>)))
        0 0
       = [(100, replace_content, Some ''Update 1'', None)]
   \<and> persisted
        (truncateHistoryUpdatesAtTimestamp 200 (newManager None\<lparr>contextHistoryUpdates := rollbackLog\<rparr>))
       = [[(0, \<lparr>editType = User,
             blocks = [(0, [(100, replace_content, Some ''Update 1'', None)])]\<rparr>),
        (1, \<lparr>editType = Assistant,
             blocks = [(0, [(200, replace_content, Some ''Update 2'', None)])]\<rparr>)]]"
proof -
  have new: "rollbackModifications 200 rollbackLog
     = [(0, \<lparr>editType = User,
             blocks = [(0, [(100, replace_content, Some ''Update 1'', None)])]\<rparr>),
        (1, \<lparr>editType = Assistant,
             blocks = [(0, [(200, replace_content, Some ''Update 2'', None)])]\<rparr>)]"
    by (simp add: rollbackModifications_def rollbackBlocks_def rollbackLog_def
        obj_get_def obj_keys_def Let_def)
  have L': "contextHistoryUpdates
     (truncateHistoryUpdatesAtTimestamp 200 (newManager None\<lparr>contextHistoryUpdates := rollbackLog\<rparr>))
     = rollbackModifications 200 rollbackLog"
    by (simp add: truncateHistoryUpdatesAtTimestamp_def saveContextHistory_def Let_def)
  have old: "editsAt rollbackLog 0 0 = [(100, replace_content, Some ''Update 1'', None),
                          (300, replace_content, Some ''Update 3'', None)]"
    by (simp add: editsAt_def rollbackLog_def obj_get_def)
  show ?thesis
    using truncateHistoryUpdatesAtTimestamp_rollback
      [of "newManager None\<lparr>contextHistoryUpdates := rollbackLog\<rparr>" 200 0 0]
    unfolding Let_def L' new
    by (simp add: old newManager_def rollbackLog_def editsAt_def obj_get_def)
qed


section \<open>Properties of reachable managers\<close>

lemma noticeInvariant_empty: "noticeInvariant []"
  by (simp add: noticeInvariant_def editsAt_def obj_get_Nil)

lemma noticeInvariant_appended:
  assumes "appended ts L L' os" and "noticeInvariant L"
  shows "noticeInvariant L'"
  unfolding noticeInvariant_def
proof (intro allI impI)
  fix i b u
  assume u: "u \<in> set (editsAt L' i b) \<and> fst (snd u) = add_truncation_notice"
  from assms(1) obtain new where new: "editsAt L' i b = editsAt L i b @ new"
      "\<forall>u \<in> set new. isElision ts u"
    unfolding appended_def by blast
  from u new have "u \<in> set (editsAt L i b)"
    by (auto simp: isElision_def)
  with u assms(2) show "i = 1 \<and> b = 0"
    unfolding noticeInvariant_def by blast
qed

lemma editsAt_addTruncationNotice:
  "set (editsAt (addTruncationNotice ts H L) i b)
     \<subseteq> set (editsAt L i b)
        \<union> (if i = 1 \<and> b = 0 then {(ts, add_truncation_notice, None, None)} else {})"
proof (cases "i = 1")
  case False
  then have "obj_get (addTruncationNotice ts H L) i = obj_get L i"
    by (rule obj_get_addTruncationNotice)
  then show ?thesis by (simp add: editsAt_def)
next
  case True
  show ?thesis
    unfolding True
    by (cases "obj_get L 1"; cases "b = 0")
       (auto simp: addTruncationNotice_def Let_def editsAt_def obj_get_obj_set obj_get_Nil
          obj_get_Cons split: option.splits)
qed

lemma noticeInvariant_addTruncationNotice:
  assumes "noticeInvariant L"
  shows "noticeInvariant (addTruncationNotice ts H L)"
  unfolding noticeInvariant_def
proof (intro allI impI)
  fix i b u
  assume u: "u \<in> set (editsAt (addTruncationNotice ts H L) i b)
      \<and> fst (snd u) = add_truncation_notice"
  then consider "u \<in> set (editsAt L i b)" | "i = 1 \<and> b = 0"
    using editsAt_addTruncationNotice [of ts H L i b] by (auto split: if_splits)
  then show "i = 1 \<and> b = 0"
    using u assms unfolding noticeInvariant_def by cases blast+
qed

lemma adjust_origin_fold:
  fixes L :: PersistedContextHistory and m :: int
  defines "f \<equiv> (\<lambda>originalIndex newModifications.
             case obj_get L originalIndex of
               None \<Rightarrow> newModifications
             | Some entry \<Rightarrow>
                 if int originalIndex < 2 then obj_set originalIndex entry newModifications
                 else if int originalIndex > 1 + m
                 then obj_set (nat (int originalIndex - m)) entry newModifications
                 else newModifications)"
  assumes acc: "\<And>k v. obj_get acc k = Some v \<Longrightarrow>
      (k < 2 \<and> obj_get L k = Some v) \<or> (2 \<le> k \<and> (\<exists>j\<ge>2. obj_get L j = Some v))"
    and res: "obj_get (fold f ks acc) k = Some v"
  shows "(k < 2 \<and> obj_get L k = Some v) \<or> (2 \<le> k \<and> (\<exists>j\<ge>2. obj_get L j = Some v))"
  using acc res
proof (induction ks arbitrary: acc)
  case Nil
  then show ?case by simp
next
  case (Cons j ks)
  have step: "\<And>k v. obj_get (f j acc) k = Some v \<Longrightarrow>
      (k < 2 \<and> obj_get L k = Some v) \<or> (2 \<le> k \<and> (\<exists>j\<ge>2. obj_get L j = Some v))"
  proof -
    fix k v assume kv: "obj_get (f j acc) k = Some v"
    show "(k < 2 \<and> obj_get L k = Some v) \<or> (2 \<le> k \<and> (\<exists>j\<ge>2. obj_get L j = Some v))"
    proof (cases "obj_get L j")
      case None
      with kv have "obj_get acc k = Some v" by (simp add: f_def)
      then show ?thesis by (rule Cons.prems(1))
    next
      case (Some e)
      consider (low) "j < 2" | (high) "2 \<le> j" "int j > 1 + m" | (mid) "2 \<le> j" "\<not> int j > 1 + m"
        by linarith
      then show ?thesis
      proof cases
        case low
        with Some kv have "obj_get (obj_set j e acc) k = Some v" by (simp add: f_def)
        then show ?thesis
          using Cons.prems(1) [of k v] Some low by (auto simp: obj_get_obj_set split: if_splits)
      next
        case high
        with Some kv have "obj_get (obj_set (nat (int j - m)) e acc) k = Some v"
          by (simp add: f_def)
        moreover have "2 \<le> nat (int j - m)" using high by linarith
        ultimately show ?thesis
          using Cons.prems(1) [of k v] Some high
          by (auto simp: obj_get_obj_set split: if_splits)
      next
        case mid
        with Some kv have "obj_get acc k = Some v" by (simp add: f_def)
        then show ?thesis by (rule Cons.prems(1))
      qed
    qed
  qed
  from Cons.prems(2) have "obj_get (fold f ks (f j acc)) k = Some v" by simp
  from Cons.IH [OF step this] show ?case .
qed

lemma adjustModificationIndices_origin:
  assumes "obj_get (adjustModificationIndices (1 + m) m L) k = Some v"
  shows "(k < 2 \<and> obj_get L k = Some v) \<or> (2 \<le> k \<and> (\<exists>j\<ge>2. obj_get L j = Some v))"
  using assms unfolding adjustModificationIndices_def
  by (rule adjust_origin_fold [rotated]) (simp add: obj_get_Nil)

lemma noticeInvariant_adjustModificationIndices:
  assumes "noticeInvariant L"
  shows "noticeInvariant (adjustModificationIndices (1 + m) m L)"
  unfolding noticeInvariant_def
proof (intro allI impI)
  fix i b u
  assume u: "u \<in> set (editsAt (adjustModificationIndices (1 + m) m L) i b)
      \<and> fst (snd u) = add_truncation_notice"
  have "\<exists>v. obj_get (adjustModificationIndices (1 + m) m L) i = Some v"
  proof (cases "obj_get (adjustModificationIndices (1 + m) m L) i")
    case None
    with u show ?thesis by (simp add: editsAt_def)
  next
    case (Some v)
    then show ?thesis by simp
  qed
  then obtain v where v1: "obj_get (adjustModificationIndices (1 + m) m L) i = Some v"
    by blast
  with u have v: "obj_get (adjustModificationIndices (1 + m) m L) i = Some v"
      "u \<in> set (case obj_get (blocks v) b of None \<Rightarrow> [] | Some us \<Rightarrow> us)"
    by (simp_all add: editsAt_def)
  from adjustModificationIndices_origin [OF v(1)]
  consider (low) "i < 2" "obj_get L i = Some v" | (high) j where "2 \<le> j" "obj_get L j = Some v"
    by blast
  then show "i = 1 \<and> b = 0"
  proof cases
    case low
    with v(2) have "u \<in> set (editsAt L i b)" by (simp add: editsAt_def)
    with u assms show ?thesis unfolding noticeInvariant_def by blast
  next
    case high
    with v(2) have "u \<in> set (editsAt L j b)" by (simp add: editsAt_def)
    with u assms have "j = 1" unfolding noticeInvariant_def by blast
    with high show ?thesis by simp
  qed
qed

lemma noticeInvariant_applyTruncation:
  assumes "noticeInvariant L"
  shows "noticeInvariant (fst (snd (applyTruncation fr tok phi ts H L maxTokens P)))"
proof -
  have alg: "\<And>m::int. 2 + m - 1 = 1 + m" by simp
  show ?thesis
    using assms
    by (simp add: applyTruncation_def Let_def alg noticeInvariant_adjustModificationIndices
        noticeInvariant_addTruncationNotice)
qed

lemma noticeInvariant_applyOptimizations:
  "noticeInvariant L \<Longrightarrow> noticeInvariant (applyOptimizations fr ts raw L)"
  using noticeInvariant_appended [OF appended_applyOptimizations] .

lemma noticeInvariant_processHistoryForApi:
  assumes "noticeInvariant (contextHistoryUpdates cm)"
  shows "noticeInvariant (contextHistoryUpdates (snd (processHistoryForApi fr optTime truncTime cm raw P)))"
proof -
  have "noticeInvariant (fst (snd (applyTruncation fr tok phi ts H
            (applyOptimizations fr optTime raw (contextHistoryUpdates cm)) maxTokens P)))"
    for tok phi ts H maxTokens
    using assms by (intro noticeInvariant_applyTruncation noticeInvariant_applyOptimizations)
  then show ?thesis
    using assms
    by (auto simp: processHistoryForApi_def Let_def saveContextHistory_def split: prod.splits)
       (metis fst_conv snd_conv)+
qed

lemma noticeInvariant_rollback:
  assumes "noticeInvariant (contextHistoryUpdates cm)"
  shows "noticeInvariant (contextHistoryUpdates (truncateHistoryUpdatesAtTimestamp t cm))"
proof -
  have "noticeInvariant (rollbackModifications t (contextHistoryUpdates cm))"
    unfolding noticeInvariant_def
  proof (intro allI impI)
    fix i b u
    assume "u \<in> set (editsAt (rollbackModifications t (contextHistoryUpdates cm)) i b)
        \<and> fst (snd u) = add_truncation_notice"
    then have "u \<in> set (editsAt (contextHistoryUpdates cm) i b)
        \<and> fst (snd u) = add_truncation_notice"
      by (simp add: editsAt_rollback)
    with assms show "i = 1 \<and> b = 0"
      unfolding noticeInvariant_def by blast
  qed
  then show ?thesis
    using assms by (simp add: truncateHistoryUpdatesAtTimestamp_def Let_def saveContextHistory_def)
qed

text \<open>
  Claim C9 (notice targets), amended: in the edit log of every reachable manager, every
  \<open>add_truncation_notice\<close> update is keyed to message index 1, block index 0. The type
  of that block is not looked at when the update is added; the applier leaves a block
  that is not a text block unchanged when its latest update is a notice.
\<close>

theorem reachable_notice_keys:
  assumes "reachable cm"
  shows "(\<forall>i b u. u \<in> set (editsAt (contextHistoryUpdates cm) i b)
                   \<and> fst (snd u) = add_truncation_notice \<longrightarrow> i = 1 \<and> b = 0)
         \<and> ((\<forall>t. blk \<noteq> TextBlock t)
              \<longrightarrow> applyLatestUpdate fr (ts, add_truncation_notice, payload, meta) blk = blk)"
proof
  have "noticeInvariant (contextHistoryUpdates cm)"
    using assms
  proof (induction rule: reachable.induct)
    case (initial cm)
    then show ?case by (simp add: noticeInvariant_empty)
  next
    case (process cm fr optTime truncTime rawHistory previousTokens)
    then show ?case by (simp add: noticeInvariant_processHistoryForApi)
  next
    case (rollback cm timestamp)
    then show ?case by (simp add: noticeInvariant_rollback)
  next
    case (model cm newModelInfo)
    then show ?case by (simp add: updateModelInfo_def)
  qed
  then show "\<forall>i b u. u \<in> set (editsAt (contextHistoryUpdates cm) i b)
                   \<and> fst (snd u) = add_truncation_notice \<longrightarrow> i = 1 \<and> b = 0"
    unfolding noticeInvariant_def .
next
  show "(\<forall>t. blk \<noteq> TextBlock t)
              \<longrightarrow> applyLatestUpdate fr (ts, add_truncation_notice, payload, meta) blk = blk"
    by (cases blk) (simp_all add: applyLatestUpdate_def)
qed

theorem reachable_notice_keys_witness:
  "reachable (snd (processHistoryForApi notices 5 7 (newManager None) toolUseHistory 100000))
   \<and> editsAt (contextHistoryUpdates
        (snd (processHistoryForApi notices 5 7 (newManager None) toolUseHistory 100000))) 1 0
       = [(7, add_truncation_notice, None, None)]
   \<and> applyLatestUpdate notices (7, add_truncation_notice, None, None)
        (ToolUseBlock ''read_file'' ''{}'') = ToolUseBlock ''read_file'' ''{}''"
proof -
  have r: "reachable (snd (processHistoryForApi notices 5 7 (newManager None) toolUseHistory 100000))"
    by (intro reachable.process reachable.initial) (simp add: newManager_def)
  have e: "editsAt (contextHistoryUpdates
        (snd (processHistoryForApi notices 5 7 (newManager None) toolUseHistory 100000))) 1 0
       = [(7, add_truncation_notice, None, None)]"
    by code_simp
  show ?thesis
    using r e
      reachable_notice_keys [OF r, of "ToolUseBlock ''read_file'' ''{}''" notices 7 None None]
    by simp
qed

text \<open>
  The target need not be a text block: from the empty log, one truncation of a history
  whose second message is an assistant message made of a tool invocation records a
  notice for that block.
\<close>

theorem notice_on_tool_use_counterexample:
  "contextHistoryUpdates (newManager None) = []
   \<and> contextHistoryUpdates
        (snd (processHistoryForApi notices 5 7 (newManager None) toolUseHistory 100000))
       = [(1, \<lparr>editType = Assistant,
               blocks = [(0, [(7, add_truncation_notice, None, None)])]\<rparr>)]
   \<and> content (toolUseHistory ! 1) = BlockContent [ToolUseBlock ''read_file'' ''{}'']
   \<and> processedHistory
        (fst (processHistoryForApi notices 5 7 (newManager None) toolUseHistory 100000))
       = [createMessage User ''hi'',
          \<lparr>role = Assistant, content = BlockContent [ToolUseBlock ''read_file'' ''{}'']\<rparr>]"
  by code_simp


end
